theory Spec2Isabelle
  imports Main "HOL-Library.Multiset"
begin

section \<open>Data model of \<^verbatim>\<open>ucs.py\<close>\<close>

text \<open>
  Players and goals are Python dictionaries with the single key \<^verbatim>\<open>"position"\<close>, holding a
  pair of unbounded integers. A \<^verbatim>\<open>GameState\<close> object has the four fields of the class; a
  \<^verbatim>\<open>Game\<close> object has \<^verbatim>\<open>rows\<close>, \<^verbatim>\<open>cols\<close> and \<^verbatim>\<open>state\<close>. Every \<^verbatim>\<open>GameState\<close> the
  program builds is a \<^verbatim>\<open>deepcopy\<close>, so states are modelled as values.
\<close>

record piece =
  position :: "int \<times> int"

record GameState =
  walls :: "(int \<times> int) list"
  goals :: "piece list"
  players :: "piece list"
  reached_goal :: "bool list"

record Game =
  rows :: int
  cols :: int
  state :: GameState

record board_details =
  board_walls :: "(int \<times> int) list"
  board_players :: "piece list"
  board_goals :: "piece list"

datatype error = IndexError

text \<open>Python list indexing \<^verbatim>\<open>xs[i]\<close>: a negative index counts from the end, an index out of
  range raises \<^verbatim>\<open>IndexError\<close> (here \<open>None\<close>).\<close>

definition py_index :: "'a list \<Rightarrow> int \<Rightarrow> 'a option" where
  "py_index xs i =
     (if 0 \<le> i \<and> i < int (length xs) then Some (xs ! nat i)
      else if i < 0 \<and> - int (length xs) \<le> i then Some (xs ! nat (int (length xs) + i))
      else None)"

text \<open>\<^verbatim>\<open>Game.__init__\<close>: every reached flag starts as \<^verbatim>\<open>False\<close>.\<close>

definition Game_init :: "int \<Rightarrow> int \<Rightarrow> board_details \<Rightarrow> Game" where
  "Game_init rows' cols' board =
     \<lparr>rows = rows', cols = cols',
      state = \<lparr>walls = board_walls board, goals = board_goals board,
               players = board_players board,
               reached_goal = replicate (length (board_players board)) False\<rparr>\<rparr>"

text \<open>\<^verbatim>\<open>all(xs)\<close> on a list of booleans.\<close>

definition py_all :: "bool list \<Rightarrow> bool" where
  "py_all xs = list_all (\<lambda>b. b) xs"

text \<open>\<^verbatim>\<open>Game.is_won\<close>.\<close>

definition is_won :: "Game \<Rightarrow> bool" where
  "is_won self = py_all (reached_goal (state self))"

text \<open>\<^verbatim>\<open>Game.is_valid_move\<close>. It reads \<^verbatim>\<open>self.state\<close>, the state stored in the game object,
  in this order: bounds, walls, the other players, then the reached flag of \<open>player_i\<close>.\<close>

definition is_valid_move :: "Game \<Rightarrow> int \<Rightarrow> int \<Rightarrow> int \<Rightarrow> error + bool" where
  "is_valid_move self row col player_i =
     (if row < 0 \<or> row \<ge> rows self \<or> col < 0 \<or> col \<ge> cols self then Inr False
      else if (row, col) \<in> set (walls (state self)) then Inr False
      else if list_ex (\<lambda>(j, other_player). int j \<noteq> player_i \<and> position other_player = (row, col))
                (enumerate 0 (players (state self))) then Inr False
      else (case py_index (reached_goal (state self)) player_i of
              None \<Rightarrow> Inl IndexError
            | Some reached \<Rightarrow>
                if reached then
                  (case py_index (goals (state self)) player_i of
                     None \<Rightarrow> Inl IndexError
                   | Some goal \<Rightarrow> if (row, col) \<noteq> position goal then Inr False else Inr True)
                else Inr True))"

text \<open>The \<^verbatim>\<open>while True\<close> loop of \<^verbatim>\<open>simulate_move\<close> for player \<open>i\<close>, started at
  \<open>(current_row, current_col)\<close>. It returns the working copy (with the reached flag set when
  the player lands on its goal) and the cell where the player stops. \<open>None\<close> is the loop
  that never ends.\<close>

partial_function (option) slide ::
  "Game \<Rightarrow> GameState \<Rightarrow> nat \<Rightarrow> int \<Rightarrow> int \<Rightarrow> int \<Rightarrow> int \<Rightarrow> (error + GameState \<times> (int \<times> int)) option"
where
  "slide self cloned_state i r_row c_col current_row current_col =
     (let next_row = current_row + r_row; next_col = current_col + c_col in
      case is_valid_move self next_row next_col (int i) of
        Inl e \<Rightarrow> Some (Inl e)
      | Inr valid \<Rightarrow>
          if \<not> valid then Some (Inr (cloned_state, (current_row, current_col)))
          else (case py_index (goals cloned_state) (int i) of
                  None \<Rightarrow> Some (Inl IndexError)
                | Some goal \<Rightarrow>
                    if (next_row, next_col) = position goal
                    then Some (Inr (cloned_state\<lparr>reached_goal := (reached_goal cloned_state)[i := True]\<rparr>,
                                    (next_row, next_col)))
                    else slide self cloned_state i r_row c_col next_row next_col))"

declare slide.simps [code]

text \<open>The \<^verbatim>\<open>for i, player in enumerate(cloned_state.players)\<close> loop of \<^verbatim>\<open>simulate_move\<close>:
  \<open>cloned_state\<close> is the one working copy, \<open>new_states\<close> the list of snapshots appended so far.\<close>

fun simulate_players ::
  "Game \<Rightarrow> int \<Rightarrow> int \<Rightarrow> (nat \<times> piece) list \<Rightarrow> GameState \<Rightarrow> GameState list \<Rightarrow> (error + GameState list) option"
where
  "simulate_players self r_row c_col [] cloned_state new_states = Some (Inr new_states)"
| "simulate_players self r_row c_col ((i, player) # rest) cloned_state new_states =
     (case py_index (reached_goal cloned_state) (int i) of
        None \<Rightarrow> Some (Inl IndexError)
      | Some reached \<Rightarrow>
          if reached then simulate_players self r_row c_col rest cloned_state new_states
          else
            (case slide self cloned_state i r_row c_col (fst (position player)) (snd (position player)) of
               None \<Rightarrow> None
             | Some (Inl e) \<Rightarrow> Some (Inl e)
             | Some (Inr (cloned_state', cur)) \<Rightarrow>
                 if cur \<noteq> position player then
                   (let cloned_state'' =
                      cloned_state'\<lparr>players := (players cloned_state')[i := player\<lparr>position := cur\<rparr>]\<rparr>
                    in simulate_players self r_row c_col rest cloned_state'' (new_states @ [cloned_state'']))
                 else simulate_players self r_row c_col rest cloned_state' new_states))"

text \<open>\<^verbatim>\<open>Game.simulate_move\<close>.\<close>

definition simulate_move :: "Game \<Rightarrow> GameState \<Rightarrow> int \<Rightarrow> int \<Rightarrow> (error + GameState list) option" where
  "simulate_move self current_state r_row c_col =
     simulate_players self r_row c_col (enumerate 0 (players current_state)) current_state []"

text \<open>\<^verbatim>\<open>Game.get_state\<close>: the canonical key of a state.\<close>

type_synonym key = "(int \<times> int) list \<times> bool list"

definition get_state :: "GameState \<Rightarrow> key" where
  "get_state st = (map position (players st), reached_goal st)"


section \<open>The three searches\<close>

text \<open>A search returns the triple \<^verbatim>\<open>(path or None, nodes_visited, visited_states)\<close>.\<close>

type_synonym search_result = "GameState list option \<times> nat \<times> GameState list"

text \<open>One pass through the body of a \<^verbatim>\<open>while\<close> loop either executes \<^verbatim>\<open>return\<close> or goes on to
  the next test of the loop condition with new values of the local variables.\<close>

datatype ('r, 'v) iteration = Return 'r | Next 'v

text \<open>The list of \<^verbatim>\<open>(move_row, move_col)\<close> pairs that all three searches iterate over.\<close>

definition moves :: "(int \<times> int) list" where
  "moves = [(-1, 0), (1, 0), (0, -1), (0, 1)]"

subsection \<open>Depth-first and breadth-first search\<close>

type_synonym frontier = "(GameState \<times> GameState list) list"

text \<open>\<^verbatim>\<open>for new_state in new_states: stack.append((new_state, path + [current_state]))\<close>; the
  loop of \<^verbatim>\<open>bfs\<close> is the same with \<^verbatim>\<open>queue.append\<close>. \<open>path'\<close> is
  \<^verbatim>\<open>path + [current_state]\<close>.\<close>

fun append_new_states :: "frontier \<Rightarrow> GameState list \<Rightarrow> GameState list \<Rightarrow> frontier" where
  "append_new_states frontier [] path' = frontier"
| "append_new_states frontier (new_state # new_states) path' =
     append_new_states (frontier @ [(new_state, path')]) new_states path'"

text \<open>\<^verbatim>\<open>for move_row, move_col in [...]\<close> of \<^verbatim>\<open>dfs\<close> and \<^verbatim>\<open>bfs\<close>.\<close>

fun expand :: "Game \<Rightarrow> GameState \<Rightarrow> GameState list \<Rightarrow> (int \<times> int) list \<Rightarrow> frontier \<Rightarrow> (error + frontier) option" where
  "expand self current_state path [] frontier = Some (Inr frontier)"
| "expand self current_state path ((move_row, move_col) # rest) frontier =
     (case simulate_move self current_state move_row move_col of
        None \<Rightarrow> None
      | Some (Inl e) \<Rightarrow> Some (Inl e)
      | Some (Inr new_states) \<Rightarrow>
          expand self current_state path rest
            (append_new_states frontier new_states (path @ [current_state])))"

text \<open>The part of the loop body that \<^verbatim>\<open>dfs\<close> and \<^verbatim>\<open>bfs\<close> share, after the pop: count, record,
  goal test, visited test, expansion.\<close>

definition visit ::
  "Game \<Rightarrow> GameState \<Rightarrow> GameState list \<Rightarrow> frontier \<Rightarrow> key set \<Rightarrow> GameState list \<Rightarrow> nat \<Rightarrow>
   (error + (search_result, frontier \<times> key set \<times> GameState list \<times> nat) iteration) option"
where
  "visit self current_state path frontier visited visited_states nodes_visited =
     (let nodes_visited = nodes_visited + 1;
          visited_states = visited_states @ [current_state]
      in if py_all (reached_goal current_state)
         then Some (Inr (Return (Some (path @ [current_state]), nodes_visited, visited_states)))
         else (let state_hash = get_state current_state
               in if state_hash \<in> visited
                  then Some (Inr (Next (frontier, visited, visited_states, nodes_visited)))
                  else (case expand self current_state path moves frontier of
                          None \<Rightarrow> None
                        | Some (Inl e) \<Rightarrow> Some (Inl e)
                        | Some (Inr frontier') \<Rightarrow>
                            Some (Inr (Next (frontier', insert state_hash visited,
                                             visited_states, nodes_visited))))))"

text \<open>The body of the \<^verbatim>\<open>while stack\<close> loop of \<^verbatim>\<open>dfs\<close>: \<^verbatim>\<open>stack.pop()\<close> takes the last entry.\<close>

definition dfs_body ::
  "Game \<Rightarrow> frontier \<Rightarrow> key set \<Rightarrow> GameState list \<Rightarrow> nat \<Rightarrow>
   (error + (search_result, frontier \<times> key set \<times> GameState list \<times> nat) iteration) option"
where
  "dfs_body self stack visited visited_states nodes_visited =
     (if stack = [] then Some (Inl IndexError)
      else (let (current_state, path) = last stack
            in visit self current_state path (butlast stack) visited visited_states nodes_visited))"

partial_function (option) dfs_loop ::
  "Game \<Rightarrow> frontier \<Rightarrow> key set \<Rightarrow> GameState list \<Rightarrow> nat \<Rightarrow> (error + search_result) option"
where
  "dfs_loop self stack visited visited_states nodes_visited =
     (if stack = [] then Some (Inr (None, nodes_visited, visited_states))
      else (case dfs_body self stack visited visited_states nodes_visited of
              None \<Rightarrow> None
            | Some (Inl e) \<Rightarrow> Some (Inl e)
            | Some (Inr (Return r)) \<Rightarrow> Some (Inr r)
            | Some (Inr (Next (stack', visited', visited_states', nodes_visited'))) \<Rightarrow>
                dfs_loop self stack' visited' visited_states' nodes_visited'))"

declare dfs_loop.simps [code]


text \<open>The body of the \<^verbatim>\<open>while queue\<close> loop of \<^verbatim>\<open>bfs\<close>: \<^verbatim>\<open>queue.popleft()\<close> takes the first
  entry.\<close>

definition bfs_body ::
  "Game \<Rightarrow> frontier \<Rightarrow> key set \<Rightarrow> GameState list \<Rightarrow> nat \<Rightarrow>
   (error + (search_result, frontier \<times> key set \<times> GameState list \<times> nat) iteration) option"
where
  "bfs_body self queue visited visited_states nodes_visited =
     (case queue of
        [] \<Rightarrow> Some (Inl IndexError)
      | (current_state, path) # queue' \<Rightarrow>
          visit self current_state path queue' visited visited_states nodes_visited)"

partial_function (option) bfs_loop ::
  "Game \<Rightarrow> frontier \<Rightarrow> key set \<Rightarrow> GameState list \<Rightarrow> nat \<Rightarrow> (error + search_result) option"
where
  "bfs_loop self queue visited visited_states nodes_visited =
     (if queue = [] then Some (Inr (None, nodes_visited, visited_states))
      else (case bfs_body self queue visited visited_states nodes_visited of
              None \<Rightarrow> None
            | Some (Inl e) \<Rightarrow> Some (Inl e)
            | Some (Inr (Return r)) \<Rightarrow> Some (Inr r)
            | Some (Inr (Next (queue', visited', visited_states', nodes_visited'))) \<Rightarrow>
                bfs_loop self queue' visited' visited_states' nodes_visited'))"

declare bfs_loop.simps [code]

text \<open>\<^verbatim>\<open>Game.bfs\<close>.\<close>

definition bfs :: "Game \<Rightarrow> (error + search_result) option" where
  "bfs self = (let initial_state = state self in bfs_loop self [(initial_state, [])] {} [] 0)"

subsection \<open>Uniform-cost search\<close>

text \<open>A queue entry is the tuple \<^verbatim>\<open>(cost, state, path)\<close>.\<close>

type_synonym entry = "nat \<times> GameState \<times> GameState list"

text \<open>\<^verbatim>\<open>GameState.__lt__\<close>: compares the numbers of \<^verbatim>\<open>True\<close> flags.\<close>

definition GameState_lt :: "GameState \<Rightarrow> GameState \<Rightarrow> bool" where
  "GameState_lt self other =
     (count_list (reached_goal self) True < count_list (reached_goal other) True)"

text \<open>Python's \<^verbatim>\<open><\<close> on two queue entries. Tuples are compared at the first component where
  they are not equal. The costs are integers. \<^verbatim>\<open>GameState\<close> defines no \<^verbatim>\<open>__eq__\<close>, so two
  states are equal only when they are the same object, and every entry of the queue holds an
  object of its own (a fresh \<^verbatim>\<open>deepcopy\<close> made by \<^verbatim>\<open>simulate_move\<close>): with equal costs the
  comparison is always decided by \<^verbatim>\<open>GameState.__lt__\<close>, and the paths are never compared.\<close>

definition entry_lt :: "entry \<Rightarrow> entry \<Rightarrow> bool" where
  "entry_lt a b =
     (case a of (cost_a, state_a, path_a) \<Rightarrow>
      case b of (cost_b, state_b, path_b) \<Rightarrow>
        if cost_a \<noteq> cost_b then cost_a < cost_b else GameState_lt state_a state_b)"

text \<open>The functions of the standard module \<^verbatim>\<open>heapq\<close> that \<^verbatim>\<open>ucs\<close> calls, on a Python list.
  They compare two items with Python's \<^verbatim>\<open><\<close>, here the argument \<open>lt\<close>.
  \<^verbatim>\<open>_siftdown(heap, startpos, pos)\<close> moves the item at \<open>pos\<close> towards the root: its loop
  carries \<open>newitem\<close> and writes it when it stops.\<close>

function siftdown_loop :: "('a \<Rightarrow> 'a \<Rightarrow> bool) \<Rightarrow> 'a list \<Rightarrow> nat \<Rightarrow> 'a \<Rightarrow> nat \<Rightarrow> 'a list" where
  "siftdown_loop lt heap startpos newitem pos =
     (if pos > startpos then
        (let parentpos = (pos - 1) div 2; parent = heap ! parentpos
         in if lt newitem parent
            then siftdown_loop lt (heap[pos := parent]) startpos newitem parentpos
            else heap[pos := newitem])
      else heap[pos := newitem])"
  by pat_completeness auto
termination
  by (relation "measure (\<lambda>(lt, heap, startpos, newitem, pos). pos)") auto

declare siftdown_loop.simps [simp del]

definition siftdown :: "('a \<Rightarrow> 'a \<Rightarrow> bool) \<Rightarrow> 'a list \<Rightarrow> nat \<Rightarrow> nat \<Rightarrow> 'a list" where
  "siftdown lt heap startpos pos = siftdown_loop lt heap startpos (heap ! pos) pos"

text \<open>The loop of \<^verbatim>\<open>_siftup(heap, pos)\<close> moves the smaller child up until a leaf is reached;
  it returns the leaf position with the list.\<close>

function siftup_loop :: "('a \<Rightarrow> 'a \<Rightarrow> bool) \<Rightarrow> 'a list \<Rightarrow> nat \<Rightarrow> nat \<Rightarrow> nat \<times> 'a list" where
  "siftup_loop lt heap endpos pos =
     (let childpos = 2 * pos + 1
      in if childpos < endpos then
           (let rightpos = childpos + 1;
                childpos = (if rightpos < endpos \<and> \<not> lt (heap ! childpos) (heap ! rightpos)
                            then rightpos else childpos)
            in siftup_loop lt (heap[pos := heap ! childpos]) endpos childpos)
         else (pos, heap))"
  by pat_completeness auto
termination
  by (relation "measure (\<lambda>(lt, heap, endpos, pos). endpos - pos)") (auto simp: Let_def)

declare siftup_loop.simps [simp del]

definition siftup :: "('a \<Rightarrow> 'a \<Rightarrow> bool) \<Rightarrow> 'a list \<Rightarrow> nat \<Rightarrow> 'a list" where
  "siftup lt heap pos =
     (let endpos = length heap; startpos = pos; newitem = heap ! pos;
          (pos', heap') = siftup_loop lt heap endpos pos
      in siftdown lt (heap'[pos' := newitem]) startpos pos')"

definition heappush :: "('a \<Rightarrow> 'a \<Rightarrow> bool) \<Rightarrow> 'a list \<Rightarrow> 'a \<Rightarrow> 'a list" where
  "heappush lt heap item = siftdown lt (heap @ [item]) 0 (length (heap @ [item]) - 1)"

text \<open>\<^verbatim>\<open>heappop\<close> raises \<^verbatim>\<open>IndexError\<close> on an empty list.\<close>

definition heappop :: "('a \<Rightarrow> 'a \<Rightarrow> bool) \<Rightarrow> 'a list \<Rightarrow> error + 'a \<times> 'a list" where
  "heappop lt heap =
     (if heap = [] then Inl IndexError
      else (let lastelt = last heap; heap' = butlast heap
            in if heap' \<noteq> [] then
                 (let returnitem = heap' ! 0
                  in Inr (returnitem, siftup lt (heap'[0 := lastelt]) 0))
               else Inr (lastelt, heap')))"

text \<open>\<^verbatim>\<open>for new_state in new_states\<close> of \<^verbatim>\<open>ucs\<close>: a successor is pushed only when its key is
  not in \<open>visited\<close>. \<open>path'\<close> is \<^verbatim>\<open>path + [current_state]\<close>.\<close>

fun push_new_states :: "entry list \<Rightarrow> key set \<Rightarrow> nat \<Rightarrow> GameState list \<Rightarrow> GameState list \<Rightarrow> entry list" where
  "push_new_states priority_queue visited cost [] path' = priority_queue"
| "push_new_states priority_queue visited cost (new_state # new_states) path' =
     (let new_state_hash = get_state new_state
      in if new_state_hash \<notin> visited
         then push_new_states (heappush entry_lt priority_queue (cost + 1, new_state, path'))
                visited cost new_states path'
         else push_new_states priority_queue visited cost new_states path')"

text \<open>\<^verbatim>\<open>for move_row, move_col in [...]\<close> of \<^verbatim>\<open>ucs\<close>.\<close>

fun ucs_expand ::
  "Game \<Rightarrow> nat \<Rightarrow> GameState \<Rightarrow> GameState list \<Rightarrow> key set \<Rightarrow> (int \<times> int) list \<Rightarrow> entry list \<Rightarrow>
   (error + entry list) option"
where
  "ucs_expand self cost current_state path visited [] priority_queue = Some (Inr priority_queue)"
| "ucs_expand self cost current_state path visited ((move_row, move_col) # rest) priority_queue =
     (case simulate_move self current_state move_row move_col of
        None \<Rightarrow> None
      | Some (Inl e) \<Rightarrow> Some (Inl e)
      | Some (Inr new_states) \<Rightarrow>
          ucs_expand self cost current_state path visited rest
            (push_new_states priority_queue visited cost new_states (path @ [current_state])))"

text \<open>The body of the \<^verbatim>\<open>while priority_queue\<close> loop of \<^verbatim>\<open>ucs\<close>.\<close>

definition ucs_body ::
  "Game \<Rightarrow> entry list \<Rightarrow> key set \<Rightarrow> GameState list \<Rightarrow> nat \<Rightarrow>
   (error + (search_result, entry list \<times> key set \<times> GameState list \<times> nat) iteration) option"
where
  "ucs_body self priority_queue visited visited_states nodes_visited =
     (case heappop entry_lt priority_queue of
        Inl e \<Rightarrow> Some (Inl e)
      | Inr ((cost, current_state, path), priority_queue') \<Rightarrow>
          (let nodes_visited = nodes_visited + 1;
               visited_states = visited_states @ [current_state]
           in if py_all (reached_goal current_state)
              then Some (Inr (Return (Some (path @ [current_state]), nodes_visited, visited_states)))
              else (let state_hash = get_state current_state
                    in if state_hash \<in> visited
                       then Some (Inr (Next (priority_queue', visited, visited_states, nodes_visited)))
                       else (case ucs_expand self cost current_state path (insert state_hash visited)
                                    moves priority_queue' of
                               None \<Rightarrow> None
                             | Some (Inl e) \<Rightarrow> Some (Inl e)
                             | Some (Inr priority_queue'') \<Rightarrow>
                                 Some (Inr (Next (priority_queue'', insert state_hash visited,
                                                  visited_states, nodes_visited)))))))"

partial_function (option) ucs_loop ::
  "Game \<Rightarrow> entry list \<Rightarrow> key set \<Rightarrow> GameState list \<Rightarrow> nat \<Rightarrow> (error + search_result) option"
where
  "ucs_loop self priority_queue visited visited_states nodes_visited =
     (if priority_queue = [] then Some (Inr (None, nodes_visited, visited_states))
      else (case ucs_body self priority_queue visited visited_states nodes_visited of
              None \<Rightarrow> None
            | Some (Inl e) \<Rightarrow> Some (Inl e)
            | Some (Inr (Return r)) \<Rightarrow> Some (Inr r)
            | Some (Inr (Next (priority_queue', visited', visited_states', nodes_visited'))) \<Rightarrow>
                ucs_loop self priority_queue' visited' visited_states' nodes_visited'))"

declare ucs_loop.simps [code]



section \<open>The program on a store of objects\<close>

text \<open>To state what a call leaves unchanged, the same functions are written once more with the
  \<^verbatim>\<open>GameState\<close> objects in a store: a reference is the index of an object in the store, a
  new object is appended, and an assignment to a field or to a list element of an object
  replaces the object at its index. The lists and dictionaries inside a \<^verbatim>\<open>GameState\<close>
  belong to that object alone, since every \<^verbatim>\<open>GameState\<close> is built by \<^verbatim>\<open>deepcopy\<close>. The
  \<^verbatim>\<open>Game\<close> object holds a reference in \<^verbatim>\<open>self.state\<close>; none of the functions below
  assigns to that field.\<close>

type_synonym ref = nat

type_synonym store = "GameState list"

record GameObject =
  rows_attr :: int
  cols_attr :: int
  state_attr :: ref

text \<open>The game as \<open>is_valid_move\<close> reads it: \<^verbatim>\<open>self.state\<close> is read from the store at the
  moment of the call.\<close>

definition the_game :: "store \<Rightarrow> GameObject \<Rightarrow> Game" where
  "the_game store self =
     \<lparr>rows = rows_attr self, cols = cols_attr self, state = store ! state_attr self\<rparr>"

text \<open>\<^verbatim>\<open>deepcopy(obj)\<close> allocates a new object with the same value.\<close>

definition deepcopy :: "store \<Rightarrow> ref \<Rightarrow> store \<times> ref" where
  "deepcopy store obj = (store @ [store ! obj], length store)"

text \<open>The \<^verbatim>\<open>while True\<close> loop of \<^verbatim>\<open>simulate_move\<close>; \<^verbatim>\<open>cloned_state.reached_goal[i] = True\<close>
  writes to the object that \<open>cloned_state\<close> refers to.\<close>

partial_function (option) slide_in_store ::
  "GameObject \<Rightarrow> store \<Rightarrow> ref \<Rightarrow> nat \<Rightarrow> int \<Rightarrow> int \<Rightarrow> int \<Rightarrow> int \<Rightarrow> (error + store \<times> (int \<times> int)) option"
where
  "slide_in_store self store cloned_state i r_row c_col current_row current_col =
     (let next_row = current_row + r_row; next_col = current_col + c_col in
      case is_valid_move (the_game store self) next_row next_col (int i) of
        Inl e \<Rightarrow> Some (Inl e)
      | Inr valid \<Rightarrow>
          if \<not> valid then Some (Inr (store, (current_row, current_col)))
          else (case py_index (goals (store ! cloned_state)) (int i) of
                  None \<Rightarrow> Some (Inl IndexError)
                | Some goal \<Rightarrow>
                    if (next_row, next_col) = position goal
                    then Some (Inr (store[cloned_state := (store ! cloned_state)
                                      \<lparr>reached_goal := (reached_goal (store ! cloned_state))[i := True]\<rparr>],
                                    (next_row, next_col)))
                    else slide_in_store self store cloned_state i r_row c_col next_row next_col))"

declare slide_in_store.simps [code]

text \<open>The \<^verbatim>\<open>for\<close> loop of \<^verbatim>\<open>simulate_move\<close>: \<^verbatim>\<open>cloned_state.players[i]["position"] = ...\<close>
  writes to the working copy, and \<^verbatim>\<open>new_states.append(deepcopy(cloned_state))\<close> allocates
  the snapshot.\<close>

fun simulate_players_in_store ::
  "GameObject \<Rightarrow> int \<Rightarrow> int \<Rightarrow> (nat \<times> piece) list \<Rightarrow> store \<Rightarrow> ref \<Rightarrow> ref list \<Rightarrow>
   (error + store \<times> ref list) option"
where
  "simulate_players_in_store self r_row c_col [] store cloned_state new_states =
     Some (Inr (store, new_states))"
| "simulate_players_in_store self r_row c_col ((i, player) # rest) store cloned_state new_states =
     (case py_index (reached_goal (store ! cloned_state)) (int i) of
        None \<Rightarrow> Some (Inl IndexError)
      | Some reached \<Rightarrow>
          if reached then simulate_players_in_store self r_row c_col rest store cloned_state new_states
          else
            (case slide_in_store self store cloned_state i r_row c_col
                    (fst (position player)) (snd (position player)) of
               None \<Rightarrow> None
             | Some (Inl e) \<Rightarrow> Some (Inl e)
             | Some (Inr (store', cur)) \<Rightarrow>
                 if cur \<noteq> position player then
                   (let store'' = store'[cloned_state := (store' ! cloned_state)
                          \<lparr>players := (players (store' ! cloned_state))[i := player\<lparr>position := cur\<rparr>]\<rparr>];
                        (store''', snapshot) = deepcopy store'' cloned_state
                    in simulate_players_in_store self r_row c_col rest store''' cloned_state
                         (new_states @ [snapshot]))
                 else simulate_players_in_store self r_row c_col rest store' cloned_state new_states))"

text \<open>\<^verbatim>\<open>Game.simulate_move\<close>: the working copy is a new object.\<close>

definition simulate_move_in_store ::
  "GameObject \<Rightarrow> store \<Rightarrow> ref \<Rightarrow> int \<Rightarrow> int \<Rightarrow> (error + store \<times> ref list) option"
where
  "simulate_move_in_store self store current_state r_row c_col =
     (let (store', cloned_state) = deepcopy store current_state
      in simulate_players_in_store self r_row c_col
           (enumerate 0 (players (store' ! cloned_state))) store' cloned_state [])"

text \<open>The searches hold references: in the frontier, in the paths and in the trace.\<close>

type_synonym ref_result = "ref list option \<times> nat \<times> ref list"

type_synonym ref_frontier = "(ref \<times> ref list) list"

fun append_refs :: "ref_frontier \<Rightarrow> ref list \<Rightarrow> ref list \<Rightarrow> ref_frontier" where
  "append_refs frontier [] path' = frontier"
| "append_refs frontier (new_state # new_states) path' =
     append_refs (frontier @ [(new_state, path')]) new_states path'"

fun expand_in_store ::
  "GameObject \<Rightarrow> ref \<Rightarrow> ref list \<Rightarrow> (int \<times> int) list \<Rightarrow> store \<Rightarrow> ref_frontier \<Rightarrow>
   (error + store \<times> ref_frontier) option"
where
  "expand_in_store self current_state path [] store frontier = Some (Inr (store, frontier))"
| "expand_in_store self current_state path ((move_row, move_col) # rest) store frontier =
     (case simulate_move_in_store self store current_state move_row move_col of
        None \<Rightarrow> None
      | Some (Inl e) \<Rightarrow> Some (Inl e)
      | Some (Inr (store', new_states)) \<Rightarrow>
          expand_in_store self current_state path rest store'
            (append_refs frontier new_states (path @ [current_state])))"

text \<open>The part of the loop body shared by \<^verbatim>\<open>dfs\<close> and \<^verbatim>\<open>bfs\<close>;
  \<^verbatim>\<open>visited_states.append(deepcopy(current_state))\<close> allocates a copy for the trace.\<close>

definition visit_in_store ::
  "GameObject \<Rightarrow> store \<Rightarrow> ref \<Rightarrow> ref list \<Rightarrow> ref_frontier \<Rightarrow> key set \<Rightarrow> ref list \<Rightarrow> nat \<Rightarrow>
   (error + store \<times> (ref_result, ref_frontier \<times> key set \<times> ref list \<times> nat) iteration) option"
where
  "visit_in_store self store current_state path frontier visited visited_states nodes_visited =
     (let nodes_visited = nodes_visited + 1;
          (store', copy) = deepcopy store current_state;
          visited_states = visited_states @ [copy]
      in if py_all (reached_goal (store' ! current_state))
         then Some (Inr (store', Return (Some (path @ [current_state]), nodes_visited, visited_states)))
         else (let state_hash = get_state (store' ! current_state)
               in if state_hash \<in> visited
                  then Some (Inr (store', Next (frontier, visited, visited_states, nodes_visited)))
                  else (case expand_in_store self current_state path moves store' frontier of
                          None \<Rightarrow> None
                        | Some (Inl e) \<Rightarrow> Some (Inl e)
                        | Some (Inr (store'', frontier')) \<Rightarrow>
                            Some (Inr (store'', Next (frontier', insert state_hash visited,
                                                      visited_states, nodes_visited))))))"

text \<open>\<^verbatim>\<open>Game.dfs\<close>: \<^verbatim>\<open>self.state.copy()\<close> allocates the initial state of the search.\<close>

partial_function (option) dfs_loop_in_store ::
  "GameObject \<Rightarrow> store \<Rightarrow> ref_frontier \<Rightarrow> key set \<Rightarrow> ref list \<Rightarrow> nat \<Rightarrow>
   (error + store \<times> ref_result) option"
where
  "dfs_loop_in_store self store stack visited visited_states nodes_visited =
     (if stack = [] then Some (Inr (store, (None, nodes_visited, visited_states)))
      else (let (current_state, path) = last stack
            in case visit_in_store self store current_state path (butlast stack) visited
                      visited_states nodes_visited of
                 None \<Rightarrow> None
               | Some (Inl e) \<Rightarrow> Some (Inl e)
               | Some (Inr (store', Return r)) \<Rightarrow> Some (Inr (store', r))
               | Some (Inr (store', Next (stack', visited', visited_states', nodes_visited'))) \<Rightarrow>
                   dfs_loop_in_store self store' stack' visited' visited_states' nodes_visited'))"

declare dfs_loop_in_store.simps [code]

definition dfs_in_store :: "GameObject \<Rightarrow> store \<Rightarrow> (error + store \<times> ref_result) option" where
  "dfs_in_store self store =
     (let (store', initial_state) = deepcopy store (state_attr self)
      in dfs_loop_in_store self store' [(initial_state, [])] {} [] 0)"

text \<open>\<^verbatim>\<open>Game.bfs\<close>.\<close>

partial_function (option) bfs_loop_in_store ::
  "GameObject \<Rightarrow> store \<Rightarrow> ref_frontier \<Rightarrow> key set \<Rightarrow> ref list \<Rightarrow> nat \<Rightarrow>
   (error + store \<times> ref_result) option"
where
  "bfs_loop_in_store self store queue visited visited_states nodes_visited =
     (case queue of
        [] \<Rightarrow> Some (Inr (store, (None, nodes_visited, visited_states)))
      | (current_state, path) # queue' \<Rightarrow>
          (case visit_in_store self store current_state path queue' visited
                  visited_states nodes_visited of
             None \<Rightarrow> None
           | Some (Inl e) \<Rightarrow> Some (Inl e)
           | Some (Inr (store', Return r)) \<Rightarrow> Some (Inr (store', r))
           | Some (Inr (store', Next (queue'', visited', visited_states', nodes_visited'))) \<Rightarrow>
               bfs_loop_in_store self store' queue'' visited' visited_states' nodes_visited'))"

declare bfs_loop_in_store.simps [code]

definition bfs_in_store :: "GameObject \<Rightarrow> store \<Rightarrow> (error + store \<times> ref_result) option" where
  "bfs_in_store self store =
     (let (store', initial_state) = deepcopy store (state_attr self)
      in bfs_loop_in_store self store' [(initial_state, [])] {} [] 0)"

text \<open>\<^verbatim>\<open>Game.ucs\<close>. On references the comparison of two queue entries can be written in
  full: two states are equal when they are the same object, and only then are the paths
  compared, as Python compares lists (the first pair of different objects decides, by
  \<^verbatim>\<open>GameState.__lt__\<close>; a proper prefix is smaller).\<close>

type_synonym ref_entry = "nat \<times> ref \<times> ref list"

fun path_lt :: "store \<Rightarrow> ref list \<Rightarrow> ref list \<Rightarrow> bool" where
  "path_lt store [] [] = False"
| "path_lt store [] (b # bs) = True"
| "path_lt store (a # as) [] = False"
| "path_lt store (a # as) (b # bs) =
     (if a = b then path_lt store as bs else GameState_lt (store ! a) (store ! b))"

definition ref_entry_lt :: "store \<Rightarrow> ref_entry \<Rightarrow> ref_entry \<Rightarrow> bool" where
  "ref_entry_lt store a b =
     (case a of (cost_a, state_a, path_a) \<Rightarrow>
      case b of (cost_b, state_b, path_b) \<Rightarrow>
        if cost_a \<noteq> cost_b then cost_a < cost_b
        else if state_a \<noteq> state_b then GameState_lt (store ! state_a) (store ! state_b)
        else path_lt store path_a path_b)"

fun push_refs :: "store \<Rightarrow> ref_entry list \<Rightarrow> key set \<Rightarrow> nat \<Rightarrow> ref list \<Rightarrow> ref list \<Rightarrow> ref_entry list" where
  "push_refs store priority_queue visited cost [] path' = priority_queue"
| "push_refs store priority_queue visited cost (new_state # new_states) path' =
     (let new_state_hash = get_state (store ! new_state)
      in if new_state_hash \<notin> visited
         then push_refs store (heappush (ref_entry_lt store) priority_queue (cost + 1, new_state, path'))
                visited cost new_states path'
         else push_refs store priority_queue visited cost new_states path')"

fun ucs_expand_in_store ::
  "GameObject \<Rightarrow> nat \<Rightarrow> ref \<Rightarrow> ref list \<Rightarrow> key set \<Rightarrow> (int \<times> int) list \<Rightarrow> store \<Rightarrow> ref_entry list \<Rightarrow>
   (error + store \<times> ref_entry list) option"
where
  "ucs_expand_in_store self cost current_state path visited [] store priority_queue =
     Some (Inr (store, priority_queue))"
| "ucs_expand_in_store self cost current_state path visited ((move_row, move_col) # rest) store priority_queue =
     (case simulate_move_in_store self store current_state move_row move_col of
        None \<Rightarrow> None
      | Some (Inl e) \<Rightarrow> Some (Inl e)
      | Some (Inr (store', new_states)) \<Rightarrow>
          ucs_expand_in_store self cost current_state path visited rest store'
            (push_refs store' priority_queue visited cost new_states (path @ [current_state])))"

partial_function (option) ucs_loop_in_store ::
  "GameObject \<Rightarrow> store \<Rightarrow> ref_entry list \<Rightarrow> key set \<Rightarrow> ref list \<Rightarrow> nat \<Rightarrow>
   (error + store \<times> ref_result) option"
where
  "ucs_loop_in_store self store priority_queue visited visited_states nodes_visited =
     (if priority_queue = [] then Some (Inr (store, (None, nodes_visited, visited_states)))
      else (case heappop (ref_entry_lt store) priority_queue of
              Inl e \<Rightarrow> Some (Inl e)
            | Inr ((cost, current_state, path), priority_queue') \<Rightarrow>
                (let nodes_visited = nodes_visited + 1;
                     (store', copy) = deepcopy store current_state;
                     visited_states = visited_states @ [copy]
                 in if py_all (reached_goal (store' ! current_state))
                    then Some (Inr (store', (Some (path @ [current_state]), nodes_visited, visited_states)))
                    else (let state_hash = get_state (store' ! current_state)
                          in if state_hash \<in> visited
                             then ucs_loop_in_store self store' priority_queue' visited
                                    visited_states nodes_visited
                             else (case ucs_expand_in_store self cost current_state path
                                          (insert state_hash visited) moves store' priority_queue' of
                                     None \<Rightarrow> None
                                   | Some (Inl e) \<Rightarrow> Some (Inl e)
                                   | Some (Inr (store'', priority_queue'')) \<Rightarrow>
                                       ucs_loop_in_store self store'' priority_queue''
                                         (insert state_hash visited) visited_states nodes_visited)))))"

declare ucs_loop_in_store.simps [code]

definition ucs_in_store :: "GameObject \<Rightarrow> store \<Rightarrow> (error + store \<times> ref_result) option" where
  "ucs_in_store self store =
     (let (store', initial_state) = deepcopy store (state_attr self)
      in ucs_loop_in_store self store' [(0, initial_state, [])] {} [] 0)"

text \<open>The objects at the first \<open>n\<close> references of the old store are the same in the new store,
  which has no fewer objects.\<close>

definition kept :: "nat \<Rightarrow> store \<Rightarrow> store \<Rightarrow> bool" where
  "kept n old new = (length old \<le> length new \<and> take n new = take n old)"

section \<open>Predicates of the specification\<close>

text \<open>A cell inside \<open>[0, rows) \<times> [0, cols)\<close>; a state all of whose players stand inside the
  grid and off the wall cells of the board; a state that is produced from another by a
  sequence of one or more \<^verbatim>\<open>simulate_move\<close> calls, each applied to a state that the
  previous call returned.\<close>

definition in_grid :: "Game \<Rightarrow> int \<times> int \<Rightarrow> bool" where
  "in_grid self cell = (0 \<le> fst cell \<and> fst cell < rows self \<and> 0 \<le> snd cell \<and> snd cell < cols self)"

definition placed_ok :: "Game \<Rightarrow> GameState \<Rightarrow> bool" where
  "placed_ok self st =
     list_all (\<lambda>p. in_grid self (position p) \<and> position p \<notin> set (walls (state self))) (players st)"

inductive descendant :: "Game \<Rightarrow> GameState \<Rightarrow> GameState \<Rightarrow> bool" for self :: Game where
  child: "simulate_move self st r_row c_col = Some (Inr new_states) \<Longrightarrow> st' \<in> set new_states \<Longrightarrow>
          descendant self st st'"
| later: "descendant self st st' \<Longrightarrow> simulate_move self st' r_row c_col = Some (Inr new_states) \<Longrightarrow>
          st'' \<in> set new_states \<Longrightarrow> descendant self st st''"

text \<open>Player \<open>i\<close> exists in the state, has its reached flag set and is the given piece.\<close>

definition frozen_at :: "nat \<Rightarrow> piece \<Rightarrow> GameState \<Rightarrow> bool" where
  "frozen_at i player st =
     (i < length (players st) \<and> i < length (reached_goal st) \<and> reached_goal st ! i \<and>
      players st ! i = player)"

text \<open>State \<open>b\<close> is state \<open>a\<close> with player \<open>i\<close> moved to another cell, and possibly with the
  reached flag of player \<open>i\<close> set; nothing else differs.\<close>

definition moved_only :: "nat \<Rightarrow> GameState \<Rightarrow> GameState \<Rightarrow> bool" where
  "moved_only i a b =
     (i < length (players a) \<and> walls b = walls a \<and> goals b = goals a \<and>
      players b = (players a)[i := players b ! i] \<and>
      position (players b ! i) \<noteq> position (players a ! i) \<and>
      (reached_goal b = reached_goal a \<or> reached_goal b = (reached_goal a)[i := True]))"

text \<open>A list of snapshots in which each one is its predecessor (the given state for the
  first) with one player moved.\<close>

definition chain :: "GameState \<Rightarrow> GameState list \<Rightarrow> bool" where
  "chain st new_states =
     (\<forall>k < length new_states. \<exists>i. moved_only i ((st # new_states) ! k) (new_states ! k))"

text \<open>The pairs still to be processed by the \<^verbatim>\<open>for\<close> loop of \<^verbatim>\<open>simulate_move\<close> name distinct
  players of the working copy, each with the piece that the working copy holds for it.\<close>

definition enum_ok :: "(nat \<times> piece) list \<Rightarrow> GameState \<Rightarrow> bool" where
  "enum_ok rest cs =
     (distinct (map fst rest) \<and> (\<forall>(j, q) \<in> set rest. j < length (players cs) \<and> players cs ! j = q))"

text \<open>The successors that the four \<^verbatim>\<open>simulate_move\<close> calls of one expansion generate, in the
  order of their generation.\<close>

fun all_new_states :: "Game \<Rightarrow> GameState \<Rightarrow> (int \<times> int) list \<Rightarrow> (error + GameState list) option" where
  "all_new_states self current_state [] = Some (Inr [])"
| "all_new_states self current_state ((move_row, move_col) # rest) =
     (case simulate_move self current_state move_row move_col of
        None \<Rightarrow> None
      | Some (Inl e) \<Rightarrow> Some (Inl e)
      | Some (Inr new_states) \<Rightarrow>
          (case all_new_states self current_state rest of
             None \<Rightarrow> None
           | Some (Inl e) \<Rightarrow> Some (Inl e)
           | Some (Inr others) \<Rightarrow> Some (Inr (new_states @ others))))"



text \<open>The cells a player can stand on in a state reachable from the stored state: the cells of
  the grid and the starting cells. The keys over these cells, and the states whose key is
  among them and that hold a goal for every player.\<close>

definition cells :: "Game \<Rightarrow> (int \<times> int) set" where
  "cells self = {cell. in_grid self cell} \<union> position ` set (players (state self))"


definition state_ok :: "Game \<Rightarrow> GameState \<Rightarrow> bool" where
  "state_ok self st =
     (length (players st) = length (players (state self)) \<and>
      length (reached_goal st) = length (players (state self)) \<and>
      length (players (state self)) \<le> length (goals st) \<and>
      position ` set (players st) \<subseteq> cells self)"


text \<open>Entry \<open>a\<close> is not after entry \<open>b\<close> in the order of the queue. The invariant of
  \<^verbatim>\<open>heapq\<close>: no entry is before its parent, the entry at \<open>(i - 1) div 2\<close>.\<close>

definition entry_le :: "entry \<Rightarrow> entry \<Rightarrow> bool" where
  "entry_le a b = (\<not> entry_lt b a)"

definition heap_inv :: "entry list \<Rightarrow> bool" where
  "heap_inv heap = list_all (\<lambda>i. entry_le (heap ! ((i - 1) div 2)) (heap ! i)) [1..<length heap]"

text \<open>The invariant of the loop of \<^verbatim>\<open>_siftdown\<close>, for the list with \<open>x\<close> written at \<open>pos\<close>: only
  the pair of \<open>pos\<close> and its parent may be out of order, and the children of \<open>pos\<close> are not
  before the parent of \<open>pos\<close>. The invariant of the loop of \<^verbatim>\<open>_siftup\<close>, started at the root:
  while \<open>pos\<close> is the root only the pairs of the root and its children may be out of order.\<close>

definition up_inv :: "entry list \<Rightarrow> nat \<Rightarrow> entry \<Rightarrow> bool" where
  "up_inv heap pos x =
     ((\<forall>i. 0 < i \<and> i < length heap \<and> i \<noteq> pos \<longrightarrow>
          entry_le ((heap[pos := x]) ! ((i - 1) div 2)) ((heap[pos := x]) ! i)) \<and>
      (\<forall>i. 0 < i \<and> i < length heap \<and> (i - 1) div 2 = pos \<and> 0 < pos \<longrightarrow>
          entry_le (heap ! ((pos - 1) div 2)) (heap ! i)))"

definition down_inv :: "entry list \<Rightarrow> nat \<Rightarrow> bool" where
  "down_inv heap pos =
     (\<forall>i. 0 < i \<and> i < length heap \<and> ((i - 1) div 2 \<noteq> pos \<or> 0 < pos) \<longrightarrow>
          entry_le (heap ! ((i - 1) div 2)) (heap ! i))"

text \<open>The values of the local variables of \<^verbatim>\<open>ucs\<close> at the loop test: those of the first test,
  and those that a pass through the body leaves for the next test.\<close>

inductive ucs_reachable ::
  "Game \<Rightarrow> entry list \<times> key set \<times> GameState list \<times> nat \<Rightarrow> bool" for self :: Game where
  start: "ucs_reachable self ([(0, state self, [])], {}, [], 0)"
| pass: "ucs_reachable self (priority_queue, visited, visited_states, nodes_visited) \<Longrightarrow>
         priority_queue \<noteq> [] \<Longrightarrow>
         ucs_body self priority_queue visited visited_states nodes_visited = Some (Inr (Next vars)) \<Longrightarrow>
         ucs_reachable self vars"

section \<open>The move simulator in the words of the specification\<close>

text \<open>Section 4.2, rule 5 of the specification: the validity checks of step 3 are made on the
  working copy, so that the moves already applied to it are visible to the checks for the
  players processed later. This loop differs from \<open>simulate_players\<close> in one place:
  \<open>is_valid_move\<close> is asked about the game whose stored state is the working copy.\<close>

fun simulate_players_on_copy ::
  "Game \<Rightarrow> int \<Rightarrow> int \<Rightarrow> (nat \<times> piece) list \<Rightarrow> GameState \<Rightarrow> GameState list \<Rightarrow> (error + GameState list) option"
where
  "simulate_players_on_copy self r_row c_col [] cloned_state new_states = Some (Inr new_states)"
| "simulate_players_on_copy self r_row c_col ((i, player) # rest) cloned_state new_states =
     (case py_index (reached_goal cloned_state) (int i) of
        None \<Rightarrow> Some (Inl IndexError)
      | Some reached \<Rightarrow>
          if reached then simulate_players_on_copy self r_row c_col rest cloned_state new_states
          else
            (case slide (self\<lparr>state := cloned_state\<rparr>) cloned_state i r_row c_col
                    (fst (position player)) (snd (position player)) of
               None \<Rightarrow> None
             | Some (Inl e) \<Rightarrow> Some (Inl e)
             | Some (Inr (cloned_state', cur)) \<Rightarrow>
                 if cur \<noteq> position player then
                   (let cloned_state'' =
                      cloned_state'\<lparr>players := (players cloned_state')[i := player\<lparr>position := cur\<rparr>]\<rparr>
                    in simulate_players_on_copy self r_row c_col rest cloned_state''
                         (new_states @ [cloned_state'']))
                 else simulate_players_on_copy self r_row c_col rest cloned_state' new_states))"

definition simulate_move_on_copy :: "Game \<Rightarrow> GameState \<Rightarrow> int \<Rightarrow> int \<Rightarrow> (error + GameState list) option" where
  "simulate_move_on_copy self current_state r_row c_col =
     simulate_players_on_copy self r_row c_col (enumerate 0 (players current_state)) current_state []"

section \<open>Scenario boards\<close>

text \<open>Scenario A: a 3 by 3 grid, a wall at \<open>(0, 2)\<close>, one player at \<open>(0, 0)\<close>, its goal at
  \<open>(0, 1)\<close>.\<close>

definition scenario_A :: Game where
  "scenario_A =
     Game_init 3 3 \<lparr>board_walls = [(0, 2)], board_players = [\<lparr>position = (0, 0)\<rparr>],
                    board_goals = [\<lparr>position = (0, 1)\<rparr>]\<rparr>"

text \<open>A state of Scenario A in which the only player has reached its goal.\<close>

definition won_state :: GameState where
  "won_state = \<lparr>walls = [(0, 2)], goals = [\<lparr>position = (0, 1)\<rparr>],
                 players = [\<lparr>position = (0, 1)\<rparr>], reached_goal = [True]\<rparr>"

text \<open>The successor of the slide down from the initial state of Scenario A.\<close>

definition A_down :: GameState where
  "A_down = \<lparr>walls = [(0, 2)], goals = [\<lparr>position = (0, 1)\<rparr>],
               players = [\<lparr>position = (2, 0)\<rparr>], reached_goal = [False]\<rparr>"

text \<open>A row of five cells with two players: the first has its goal at the left end, the
  second at the right end. \<open>F_left\<close> is the state after the first player slid left onto its
  goal, \<open>F_left_right\<close> the state after the second player then slid right onto its goal.\<close>

definition scenario_F :: Game where
  "scenario_F = Game_init 1 5 \<lparr>board_walls = [], board_players = [\<lparr>position = (0, 1)\<rparr>, \<lparr>position = (0, 3)\<rparr>],
      board_goals = [\<lparr>position = (0, 0)\<rparr>, \<lparr>position = (0, 4)\<rparr>]\<rparr>"

definition F_left :: GameState where
  "F_left = \<lparr>walls = [], goals = [\<lparr>position = (0, 0)\<rparr>, \<lparr>position = (0, 4)\<rparr>],
           players = [\<lparr>position = (0, 0)\<rparr>, \<lparr>position = (0, 3)\<rparr>],
           reached_goal = [True, False]\<rparr>"
definition F_left_right :: GameState where
  "F_left_right = \<lparr>walls = [], goals = [\<lparr>position = (0, 0)\<rparr>, \<lparr>position = (0, 4)\<rparr>],
           players = [\<lparr>position = (0, 0)\<rparr>, \<lparr>position = (0, 4)\<rparr>],
           reached_goal = [True, True]\<rparr>"

text \<open>The second snapshot of the slide to the left from the initial state of this board.\<close>

definition F_left_2 :: GameState where
  "F_left_2 = \<lparr>walls = [], goals = [\<lparr>position = (0, 0)\<rparr>, \<lparr>position = (0, 4)\<rparr>],
           players = [\<lparr>position = (0, 0)\<rparr>, \<lparr>position = (0, 2)\<rparr>],
           reached_goal = [True, False]\<rparr>"

text \<open>Scenario C: a row of five cells, two players side by side, the first-processed one
  ahead of the other in the direction of the slide to the right.\<close>

definition scenario_C :: Game where
  "scenario_C =
     Game_init 1 5 \<lparr>board_walls = [], board_players = [\<lparr>position = (0, 1)\<rparr>, \<lparr>position = (0, 0)\<rparr>],
                    board_goals = [\<lparr>position = (0, 4)\<rparr>, \<lparr>position = (0, 3)\<rparr>]\<rparr>"

text \<open>A row of three cells whose only player starts on its goal cell; \<open>G_right\<close> is the state
  after the slide to the right.\<close>

definition scenario_G :: Game where
  "scenario_G =
     Game_init 1 3 \<lparr>board_walls = [], board_players = [\<lparr>position = (0, 0)\<rparr>],
                    board_goals = [\<lparr>position = (0, 0)\<rparr>]\<rparr>"

definition G_right :: GameState where
  "G_right = \<lparr>walls = [], goals = [\<lparr>position = (0, 0)\<rparr>],
              players = [\<lparr>position = (0, 2)\<rparr>], reached_goal = [False]\<rparr>"

text \<open>Scenario A on a store: the game object refers to the only object of the store. The
  stores that depth-first search, and breadth-first and uniform-cost search, leave.\<close>

definition A_store :: store where "A_store = [state scenario_A]"
definition A_object :: GameObject where "A_object = \<lparr>rows_attr = 3, cols_attr = 3, state_attr = 0\<rparr>"

definition A_corner :: GameState where
  "A_corner = \<lparr>walls = [(0, 2)], goals = [\<lparr>position = (0, 1)\<rparr>],
                 players = [\<lparr>position = (2, 2)\<rparr>], reached_goal = [False]\<rparr>"

definition A_dfs_store :: store where
  "A_dfs_store =
     [state scenario_A, state scenario_A, state scenario_A, state scenario_A, A_down, A_down,
      state scenario_A, won_state, won_state, won_state]"

definition A_bfs_store :: store where
  "A_bfs_store =
     [state scenario_A, state scenario_A, state scenario_A, state scenario_A, A_down, A_down,
      state scenario_A, won_state, won_state, A_down, state scenario_A, state scenario_A,
      A_down, A_down, A_corner, A_corner, won_state]"

section \<open>The slide of one player\<close>

lemma py_index_nat: "py_index xs (int i) = (if i < length xs then Some (xs ! i) else None)"
  by (simp add: py_index_def Let_def)

lemma is_valid_move_True:
  "is_valid_move self row col player_i = Inr True \<Longrightarrow>
     0 \<le> row \<and> row < rows self \<and> 0 \<le> col \<and> col < cols self \<and> (row, col) \<notin> set (walls (state self))"
  by (auto simp: is_valid_move_def split: if_splits option.splits)

definition set_reached :: "nat \<Rightarrow> GameState \<Rightarrow> GameState" where
  "set_reached i cs = cs\<lparr>reached_goal := (reached_goal cs)[i := True]\<rparr>"

definition slide_post :: "Game \<Rightarrow> GameState \<Rightarrow> nat \<Rightarrow> int \<Rightarrow> int \<Rightarrow> int \<Rightarrow> int \<Rightarrow> GameState \<Rightarrow> int \<times> int \<Rightarrow> bool" where
  "slide_post self cs i r_row c_col row col cs' cur =
     (\<exists>k. cur = (row + int k * r_row, col + int k * c_col) \<and>
        (k = 0 \<and> cs' = cs \<and> is_valid_move self (row + r_row) (col + c_col) (int i) = Inr False \<or>
         0 < k \<and> is_valid_move self (fst cur) (snd cur) (int i) = Inr True \<and>
           (cs' = cs \<and> (\<forall>goal. py_index (goals cs) (int i) = Some goal \<longrightarrow> position goal \<noteq> cur) \<or>
            cs' = set_reached i cs \<and>
              (\<exists>goal. py_index (goals cs) (int i) = Some goal \<and> position goal = cur))))"

lemma slide_post_stop:
  "is_valid_move self (row + r_row) (col + c_col) (int i) = Inr False \<Longrightarrow>
     slide_post self cs i r_row c_col row col cs (row, col)"
  unfolding slide_post_def by (rule exI[of _ 0]) simp

lemma slide_post_goal:
  assumes "is_valid_move self (row + r_row) (col + c_col) (int i) = Inr True"
    and "py_index (goals cs) (int i) = Some goal" and "position goal = (row + r_row, col + c_col)"
  shows "slide_post self cs i r_row c_col row col (set_reached i cs) (row + r_row, col + c_col)"
  unfolding slide_post_def using assms by (intro exI[of _ 1]) simp

lemma slide_post_step:
  assumes v: "is_valid_move self (row + r_row) (col + c_col) (int i) = Inr True"
    and g: "py_index (goals cs) (int i) = Some goal" "position goal \<noteq> (row + r_row, col + c_col)"
    and rest: "slide_post self cs i r_row c_col (row + r_row) (col + c_col) cs' cur"
  shows "slide_post self cs i r_row c_col row col cs' cur"
proof -
  from rest obtain k where k: "cur = (row + r_row + int k * r_row, col + c_col + int k * c_col)"
    and d: "k = 0 \<and> cs' = cs \<and>
             is_valid_move self (row + r_row + r_row) (col + c_col + c_col) (int i) = Inr False \<or>
         0 < k \<and> is_valid_move self (fst cur) (snd cur) (int i) = Inr True \<and>
           (cs' = cs \<and> (\<forall>goal. py_index (goals cs) (int i) = Some goal \<longrightarrow> position goal \<noteq> cur) \<or>
            cs' = set_reached i cs \<and>
              (\<exists>goal. py_index (goals cs) (int i) = Some goal \<and> position goal = cur))"
    unfolding slide_post_def by blast
  have c: "cur = (row + int (Suc k) * r_row, col + int (Suc k) * c_col)"
    using k by (simp add: algebra_simps)
  show ?thesis
  proof (cases "k = 0")
    case True
    with d have "cs' = cs" by simp
    moreover from True k have "cur = (row + r_row, col + c_col)" by simp
    ultimately show ?thesis
      unfolding slide_post_def using v g
      by (intro exI[of _ 1]) simp
  next
    case False
    with d c show ?thesis unfolding slide_post_def by (intro exI[of _ "Suc k"]) simp
  qed
qed

lemma slide_Inr:
  assumes "slide self cs i r_row c_col row col = Some y"
  shows "\<forall>cs' cur. y = Inr (cs', cur) \<longrightarrow> slide_post self cs i r_row c_col row col cs' cur"
proof (rule slide.raw_induct[where P = "\<lambda>self cs i r_row c_col row col y.
          \<forall>cs' cur. y = Inr (cs', cur) \<longrightarrow> slide_post self cs i r_row c_col row col cs' cur",
        OF _ assms], goal_cases)
  case (1 f self cs i r_row c_col row col y)
  note IH = 1(1)[rule_format, OF _ refl]
  show ?case
  proof (intro allI impI)
    fix cs' cur assume y: "y = Inr (cs', cur)"
    note body = 1(2)[unfolded y Let_def]
    show "slide_post self cs i r_row c_col row col cs' cur"
    proof (cases "is_valid_move self (row + r_row) (col + c_col) (int i)")
      case (Inl e)
      with body show ?thesis by simp
    next
      case (Inr valid)
      show ?thesis
      proof (cases valid)
        case False
        with body Inr have "cs' = cs" "cur = (row, col)" by simp_all
        with Inr False show ?thesis by (simp add: slide_post_stop)
      next
        case True
        with Inr have v: "is_valid_move self (row + r_row) (col + c_col) (int i) = Inr True"
          by simp
        show ?thesis
        proof (cases "py_index (goals cs) (int i)")
          case None
          with body v show ?thesis by simp
        next
          case (Some goal)
          show ?thesis
          proof (cases "(row + r_row, col + c_col) = position goal")
            case True
            with body v Some have "cs' = set_reached i cs" "cur = (row + r_row, col + c_col)"
              by (simp_all add: set_reached_def)
            with slide_post_goal[OF v Some True[symmetric]] show ?thesis by simp
          next
            case False
            with body v Some have "f self cs i r_row c_col (row + r_row) (col + c_col) = Some (Inr (cs', cur))"
              by simp
            from slide_post_step[OF v Some _ IH[OF this]] False show ?thesis by auto
          qed
        qed
      qed
    qed
  qed
qed

lemma slide_Some_Inr:
  "slide self cs i r_row c_col row col = Some (Inr (cs', cur)) \<Longrightarrow>
     slide_post self cs i r_row c_col row col cs' cur"
  using slide_Inr by blast

definition move_player :: "nat \<Rightarrow> piece \<Rightarrow> int \<times> int \<Rightarrow> GameState \<Rightarrow> GameState" where
  "move_player i player cur cs = cs\<lparr>players := (players cs)[i := player\<lparr>position := cur\<rparr>]\<rparr>"

lemma simulate_players_rule:
  assumes run: "simulate_players self r_row c_col rest cs acc = Some (Inr out)"
    and init: "I rest cs acc"
    and skip: "\<And>i p rest cs acc. I ((i, p) # rest) cs acc \<Longrightarrow>
                 py_index (reached_goal cs) (int i) = Some True \<Longrightarrow> I rest cs acc"
    and stay: "\<And>i p rest cs acc cs'. I ((i, p) # rest) cs acc \<Longrightarrow>
                 py_index (reached_goal cs) (int i) = Some False \<Longrightarrow>
                 slide_post self cs i r_row c_col (fst (position p)) (snd (position p)) cs' (position p) \<Longrightarrow>
                 I rest cs' acc"
    and move: "\<And>i p rest cs acc cs' cur. I ((i, p) # rest) cs acc \<Longrightarrow>
                 py_index (reached_goal cs) (int i) = Some False \<Longrightarrow>
                 slide_post self cs i r_row c_col (fst (position p)) (snd (position p)) cs' cur \<Longrightarrow>
                 cur \<noteq> position p \<Longrightarrow>
                 I rest (move_player i p cur cs') (acc @ [move_player i p cur cs'])"
  shows "\<exists>cs'. I [] cs' out"
  using run init
proof (induction rest arbitrary: cs acc)
  case Nil
  then show ?case by auto
next
  case (Cons ip rest)
  obtain i p where ip: "ip = (i, p)" by (cases ip)
  note run = Cons.prems(1)[unfolded ip simulate_players.simps]
  note inv = Cons.prems(2)[unfolded ip]
  show ?case
  proof (cases "py_index (reached_goal cs) (int i)")
    case None
    with run show ?thesis by simp
  next
    case (Some reached)
    show ?thesis
    proof (cases reached)
      case True
      with run Some have "simulate_players self r_row c_col rest cs acc = Some (Inr out)" by simp
      moreover from skip[OF inv] Some True have "I rest cs acc" by simp
      ultimately show ?thesis by (rule Cons.IH)
    next
      case False
      with Some have flag: "py_index (reached_goal cs) (int i) = Some False" by simp
      show ?thesis
      proof (cases "slide self cs i r_row c_col (fst (position p)) (snd (position p))")
        case None
        with run flag show ?thesis by simp
      next
        case (Some res)
        show ?thesis
        proof (cases res)
          case (Inl e)
          with run flag Some show ?thesis by simp
        next
          case (Inr pr)
          obtain cs' cur where pr: "pr = (cs', cur)" by (cases pr)
          from Some Inr pr have sl: "slide self cs i r_row c_col (fst (position p)) (snd (position p)) = Some (Inr (cs', cur))"
            by simp
          note post = slide_Some_Inr[OF sl]
          show ?thesis
          proof (cases "cur = position p")
            case True
            with run flag sl have "simulate_players self r_row c_col rest cs' acc = Some (Inr out)" by simp
            moreover from stay[OF inv flag] post True have "I rest cs' acc" by simp
            ultimately show ?thesis by (rule Cons.IH)
          next
            case False
            with run flag sl
            have "simulate_players self r_row c_col rest (move_player i p cur cs')
                    (acc @ [move_player i p cur cs']) = Some (Inr out)"
              by (simp add: move_player_def Let_def)
            moreover note move[OF inv flag post False]
            ultimately show ?thesis by (rule Cons.IH)
          qed
        qed
      qed
    qed
  qed
qed


section \<open>Scenario A\<close>

lemma bfs_scenario_A:
  "bfs scenario_A =
     Some (Inr (Some [\<lparr>walls = [(0, 2)], goals = [\<lparr>position = (0, 1)\<rparr>],
                       players = [\<lparr>position = (0, 0)\<rparr>], reached_goal = [False]\<rparr>,
                      \<lparr>walls = [(0, 2)], goals = [\<lparr>position = (0, 1)\<rparr>],
                       players = [\<lparr>position = (0, 1)\<rparr>], reached_goal = [True]\<rparr>],
                3,
                [\<lparr>walls = [(0, 2)], goals = [\<lparr>position = (0, 1)\<rparr>],
                  players = [\<lparr>position = (0, 0)\<rparr>], reached_goal = [False]\<rparr>,
                 \<lparr>walls = [(0, 2)], goals = [\<lparr>position = (0, 1)\<rparr>],
                  players = [\<lparr>position = (2, 0)\<rparr>], reached_goal = [False]\<rparr>,
                 \<lparr>walls = [(0, 2)], goals = [\<lparr>position = (0, 1)\<rparr>],
                  players = [\<lparr>position = (0, 1)\<rparr>], reached_goal = [True]\<rparr>]))"
  by code_simp

lemma slide_right_scenario_A:
  "simulate_move scenario_A (state scenario_A) 0 1 =
     Some (Inr [\<lparr>walls = [(0, 2)], goals = [\<lparr>position = (0, 1)\<rparr>],
                 players = [\<lparr>position = (0, 1)\<rparr>], reached_goal = [True]\<rparr>])"
  by code_simp

text \<open>Claim C2, as amended. On the Scenario A board, sliding right moves the player one cell
  to \<open>(0, 1)\<close>, sets its reached flag and stops; breadth-first search returns a solution path
  of exactly 2 snapshots, the initial state and then a state with every flag set, and
  reports 3 for \<open>nodes_visited\<close>: the initial state, the successor of the downward slide and
  the goal state are popped, in this order.\<close>

theorem scenario_A_bfs:
  "simulate_move scenario_A (state scenario_A) 0 1 =
     Some (Inr [\<lparr>walls = [(0, 2)], goals = [\<lparr>position = (0, 1)\<rparr>],
                 players = [\<lparr>position = (0, 1)\<rparr>], reached_goal = [True]\<rparr>]) \<and>
   (\<exists>path trace. bfs scenario_A = Some (Inr (Some path, 3, trace)) \<and> length path = 2 \<and>
      hd path = state scenario_A \<and> py_all (reached_goal (last path)))"
  unfolding bfs_scenario_A slide_right_scenario_A by (simp add: scenario_A_def Game_init_def py_all_def)

text \<open>Claim C2 as stated fails: breadth-first search on Scenario A does not report
  \<open>nodes_visited = 1\<close> with a 2-snapshot path.\<close>

theorem scenario_A_bfs_counterexample:
  "\<not> (\<exists>path trace. bfs scenario_A = Some (Inr (Some path, 1, trace)) \<and> length path = 2)"
  unfolding bfs_scenario_A by simp

section \<open>Order of the goal test and the visited test\<close>

text \<open>Claim C3. In each of the three loops, when the entry that the next pop takes holds a
  state whose reached flags are all true, the loop returns \<^verbatim>\<open>path + [state]\<close>, the pop counter
  (incremented for this pop) and the trace (with this state appended), whatever the visited
  set is: also when the key of the state is already in it. The goal test comes first.\<close>

theorem goal_check_precedes_visited_check:
  assumes "py_all (reached_goal current_state)"
  shows "dfs_loop self (stack @ [(current_state, path)]) visited visited_states nodes_visited =
           Some (Inr (Some (path @ [current_state]), nodes_visited + 1, visited_states @ [current_state])) \<and>
         bfs_loop self ((current_state, path) # queue) visited visited_states nodes_visited =
           Some (Inr (Some (path @ [current_state]), nodes_visited + 1, visited_states @ [current_state])) \<and>
         (heappop entry_lt priority_queue = Inr ((cost, current_state, path), priority_queue') \<longrightarrow>
          ucs_loop self priority_queue visited visited_states nodes_visited =
           Some (Inr (Some (path @ [current_state]), nodes_visited + 1, visited_states @ [current_state])))"
proof (intro conjI impI)
  show "dfs_loop self (stack @ [(current_state, path)]) visited visited_states nodes_visited =
           Some (Inr (Some (path @ [current_state]), nodes_visited + 1, visited_states @ [current_state]))"
    using assms by (subst dfs_loop.simps) (simp add: dfs_body_def visit_def)
  show "bfs_loop self ((current_state, path) # queue) visited visited_states nodes_visited =
           Some (Inr (Some (path @ [current_state]), nodes_visited + 1, visited_states @ [current_state]))"
    using assms by (subst bfs_loop.simps) (simp add: bfs_body_def visit_def)
next
  assume pop: "heappop entry_lt priority_queue = Inr ((cost, current_state, path), priority_queue')"
  then have "priority_queue \<noteq> []" by (auto simp: heappop_def)
  with pop assms show "ucs_loop self priority_queue visited visited_states nodes_visited =
           Some (Inr (Some (path @ [current_state]), nodes_visited + 1, visited_states @ [current_state]))"
    by (subst ucs_loop.simps) (simp add: ucs_body_def)
qed

text \<open>An instance in which the key of the popped state is in the visited set.\<close>

theorem goal_check_precedes_visited_check_witness:
  "py_all (reached_goal won_state) \<and> get_state won_state \<in> {get_state won_state} \<and>
   heappop entry_lt [(0, won_state, [])] = Inr ((0, won_state, []), []) \<and>
   dfs_loop scenario_A ([] @ [(won_state, [])]) {get_state won_state} [] 0 = Some (Inr (Some ([] @ [won_state]), 0 + 1, [] @ [won_state])) \<and>
   bfs_loop scenario_A ((won_state, []) # []) {get_state won_state} [] 0 = Some (Inr (Some ([] @ [won_state]), 0 + 1, [] @ [won_state])) \<and>
   ucs_loop scenario_A [(0, won_state, [])] {get_state won_state} [] 0 = Some (Inr (Some ([] @ [won_state]), 0 + 1, [] @ [won_state]))"
proof -
  have a: "py_all (reached_goal won_state)" by (simp add: won_state_def py_all_def)
  have b: "heappop entry_lt [(0, won_state, [])] = Inr ((0, won_state, []), [])" by (simp add: heappop_def)
  from goal_check_precedes_visited_check[OF a, of scenario_A "[]" "[]" "{get_state won_state}" "[]" 0 "[]" "[(0, won_state, [])]" 0 "[]"] a b
  show ?thesis by simp
qed


section \<open>Invariants of the move simulator\<close>

lemma slide_post_cases:
  "slide_post self cs i r_row c_col row col cs' cur \<Longrightarrow> cs' = cs \<or> cs' = set_reached i cs"
  unfolding slide_post_def by blast

lemma slide_post_moved_valid:
  "slide_post self cs i r_row c_col row col cs' cur \<Longrightarrow> cur \<noteq> (row, col) \<Longrightarrow>
     is_valid_move self (fst cur) (snd cur) (int i) = Inr True"
  unfolding slide_post_def by auto

lemma slide_post_unmoved:
  assumes "slide_post self cs i r_row c_col row col cs' (row, col)" and "(r_row, c_col) \<noteq> (0, 0)"
  shows "cs' = cs \<and> is_valid_move self (row + r_row) (col + c_col) (int i) = Inr False"
proof -
  from assms(1) obtain k where k: "(row, col) = (row + int k * r_row, col + int k * c_col)"
    and d: "k = 0 \<and> cs' = cs \<and> is_valid_move self (row + r_row) (col + c_col) (int i) = Inr False \<or> 0 < k"
    unfolding slide_post_def by blast
  from k assms(2) have "k = 0" by auto
  with d show ?thesis by simp
qed

lemma set_reached_simps [simp]:
  "players (set_reached i cs) = players cs" "walls (set_reached i cs) = walls cs"
  "goals (set_reached i cs) = goals cs" "reached_goal (set_reached i cs) = (reached_goal cs)[i := True]"
  by (simp_all add: set_reached_def)

lemma move_player_simps [simp]:
  "players (move_player i p cur cs) = (players cs)[i := p\<lparr>position := cur\<rparr>]"
  "walls (move_player i p cur cs) = walls cs"
  "goals (move_player i p cur cs) = goals cs" "reached_goal (move_player i p cur cs) = reached_goal cs"
  by (simp_all add: move_player_def)

lemma placed_ok_set_reached [simp]: "placed_ok self (set_reached i cs) = placed_ok self cs"
  by (simp add: placed_ok_def)

lemma placed_ok_move_player:
  assumes "placed_ok self cs" and "is_valid_move self (fst cur) (snd cur) j = Inr True"
  shows "placed_ok self (move_player i p cur cs)"
proof -
  from is_valid_move_True[OF assms(2)] have "in_grid self cur \<and> cur \<notin> set (walls (state self))"
    by (simp add: in_grid_def)
  with assms(1) show ?thesis
    by (auto simp: placed_ok_def list_all_iff dest!: set_update_subset_insert[THEN subsetD])
qed

lemma simulate_players_placed_ok:
  assumes run: "simulate_players self r_row c_col rest cs acc = Some (Inr out)"
    and ok: "placed_ok self cs" "list_all (\<lambda>s. placed_ok self s \<and> walls s = walls cs) acc"
  shows "list_all (\<lambda>s. placed_ok self s \<and> walls s = walls cs) out"
proof -
  let ?I = "\<lambda>(rest :: (nat \<times> piece) list) c a. placed_ok self c \<and> walls c = walls cs \<and>
              list_all (\<lambda>s. placed_ok self s \<and> walls s = walls cs) a"
  have "\<exists>cs'. ?I [] cs' out"
  proof (rule simulate_players_rule[where I = ?I, OF run])
    show "?I rest cs acc" using ok by simp
  next
    fix i p rest c a c'
    assume "?I ((i, p) # rest) c a"
      and "slide_post self c i r_row c_col (fst (position p)) (snd (position p)) c' (position p)"
    then show "?I rest c' a" by (auto dest!: slide_post_cases)
  next
    fix i p rest c a c' cur
    assume inv: "?I ((i, p) # rest) c a"
      and post: "slide_post self c i r_row c_col (fst (position p)) (snd (position p)) c' cur"
      and ne: "cur \<noteq> position p"
    from slide_post_moved_valid[OF post] ne
    have v: "is_valid_move self (fst cur) (snd cur) (int i) = Inr True" by simp
    from inv slide_post_cases[OF post] have "placed_ok self c'" "walls c' = walls cs" by auto
    with placed_ok_move_player[OF _ v] inv
    show "?I rest (move_player i p cur c') (a @ [move_player i p cur c'])" by simp
  qed simp
  then show ?thesis by blast
qed

text \<open>Claim C7. When every player of the input state stands inside the grid and off the wall
  cells of the board, so does every player of every state in the list that \<^verbatim>\<open>simulate_move\<close>
  returns, for every pair of deltas; the wall list of a successor is that of the input.\<close>

theorem successors_in_bounds_off_walls:
  assumes "placed_ok self current_state"
    and "simulate_move self current_state r_row c_col = Some (Inr new_states)"
  shows "list_all (\<lambda>st'. placed_ok self st' \<and> walls st' = walls current_state) new_states"
  using simulate_players_placed_ok[OF assms(2)[unfolded simulate_move_def] assms(1)] by simp

theorem successors_in_bounds_off_walls_witness:
  "placed_ok scenario_A (state scenario_A) \<and>
   simulate_move scenario_A (state scenario_A) 0 1 = Some (Inr [won_state]) \<and>
   list_all (\<lambda>st'. placed_ok scenario_A st' \<and> walls st' = walls (state scenario_A)) [won_state]"
proof -
  have ok: "placed_ok scenario_A (state scenario_A)"
    by (simp add: placed_ok_def in_grid_def scenario_A_def Game_init_def)
  have run: "simulate_move scenario_A (state scenario_A) 0 1 = Some (Inr [won_state])"
    by code_simp
  from successors_in_bounds_off_walls[OF ok run] ok run show ?thesis by simp
qed

lemma frozen_at_set_reached: "frozen_at i p cs \<Longrightarrow> frozen_at i p (set_reached j cs)"
  by (cases "i = j") (auto simp: frozen_at_def)

lemma frozen_at_move_player:
  assumes "frozen_at i p cs" and "py_index (reached_goal cs) (int j) = Some False"
  shows "frozen_at i p (move_player j q cur cs)"
proof -
  from assms have "j \<noteq> i" by (auto simp: frozen_at_def py_index_nat)
  with assms(1) show ?thesis by (simp add: frozen_at_def)
qed

lemma simulate_players_frozen:
  assumes run: "simulate_players self r_row c_col rest cs acc = Some (Inr out)"
    and fr: "frozen_at k pk cs" "list_all (frozen_at k pk) acc"
  shows "list_all (frozen_at k pk) out"
proof -
  let ?I = "\<lambda>(rest :: (nat \<times> piece) list) c a. frozen_at k pk c \<and> list_all (frozen_at k pk) a"
  have "\<exists>cs'. ?I [] cs' out"
  proof (rule simulate_players_rule[where I = ?I, OF run])
    show "?I rest cs acc" using fr by simp
  next
    fix i p rest c a c'
    assume "?I ((i, p) # rest) c a"
      and "slide_post self c i r_row c_col (fst (position p)) (snd (position p)) c' (position p)"
    then show "?I rest c' a" by (auto dest!: slide_post_cases intro: frozen_at_set_reached)
  next
    fix i p rest c a c' cur
    assume inv: "?I ((i, p) # rest) c a"
      and flag: "py_index (reached_goal c) (int i) = Some False"
      and post: "slide_post self c i r_row c_col (fst (position p)) (snd (position p)) c' cur"
    from inv have fc: "frozen_at k pk c" by simp
    with flag have ik: "i \<noteq> k" by (auto simp: frozen_at_def py_index_nat)
    from slide_post_cases[OF post] fc have fc': "frozen_at k pk c'"
      by (auto intro: frozen_at_set_reached)
    from fc' ik have "frozen_at k pk (move_player i p cur c')" by (simp add: frozen_at_def)
    with inv show "?I rest (move_player i p cur c') (a @ [move_player i p cur c'])" by simp
  qed simp
  then show ?thesis by blast
qed

lemma simulate_move_frozen:
  assumes "simulate_move self st r_row c_col = Some (Inr new_states)" and "frozen_at k pk st"
    and "st' \<in> set new_states"
  shows "frozen_at k pk st'"
  using simulate_players_frozen[OF assms(1)[unfolded simulate_move_def] assms(2)] assms(3)
  by (simp add: list_all_iff)

lemma descendant_frozen:
  "descendant self st st' \<Longrightarrow> frozen_at k pk st \<Longrightarrow> frozen_at k pk st'"
  by (induction rule: descendant.induct) (auto intro: simulate_move_frozen)

text \<open>Claim C6. When player \<open>i\<close> of a state has its reached flag set, every descendant of the
  state, under any sequence of \<^verbatim>\<open>simulate_move\<close> calls, still has player \<open>i\<close>, with its flag
  set and with the position it has in the ancestor.\<close>

theorem frozen_goal_invariant:
  assumes "descendant self st st'"
    and "i < length (players st)" and "i < length (reached_goal st)" and "reached_goal st ! i"
  shows "i < length (players st') \<and> i < length (reached_goal st') \<and> reached_goal st' ! i \<and>
         players st' ! i = players st ! i"
proof -
  from assms(2-4) have "frozen_at i (players st ! i) st" by (simp add: frozen_at_def)
  from descendant_frozen[OF assms(1) this] show ?thesis by (simp add: frozen_at_def)
qed

lemma F_left_right_step: "simulate_move scenario_F F_left 0 1 = Some (Inr [F_left_right])"
  by code_simp

theorem frozen_goal_invariant_witness:
  "descendant scenario_F F_left F_left_right \<and> 0 < length (players F_left) \<and>
   0 < length (reached_goal F_left) \<and> reached_goal F_left ! 0 \<and>
   0 < length (players F_left_right) \<and> 0 < length (reached_goal F_left_right) \<and>
   reached_goal F_left_right ! 0 \<and> players F_left_right ! 0 = players F_left ! 0"
proof -
  have d: "descendant scenario_F F_left F_left_right"
    by (rule descendant.child[OF F_left_right_step]) simp
  have h: "0 < length (players F_left)" "0 < length (reached_goal F_left)" "reached_goal F_left ! 0"
    by (simp_all add: F_left_def)
  from frozen_goal_invariant[OF d h] d h show ?thesis by simp
qed


section \<open>The working copy of one call\<close>

lemma enum_ok_enumerate: "enum_ok (enumerate 0 (players st)) st"
  by (auto simp: enum_ok_def in_set_enumerate_eq)

lemma enum_ok_head: "enum_ok ((i, p) # rest) cs \<Longrightarrow> i < length (players cs) \<and> players cs ! i = p"
  by (simp add: enum_ok_def)

lemma enum_ok_tail:
  assumes "enum_ok ((i, p) # rest) cs" and "players cs' = players cs \<or> players cs' = (players cs)[i := q]"
  shows "enum_ok rest cs'"
  using assms unfolding enum_ok_def by (auto simp: nth_list_update split: prod.splits) force+


lemma slide_post_reached:
  "slide_post self cs i r_row c_col row col cs' cur \<Longrightarrow>
     cs' = cs \<or> cs' = set_reached i cs \<and>
       (\<exists>goal. py_index (goals cs) (int i) = Some goal \<and> position goal = cur)"
  unfolding slide_post_def by blast

lemma chain_snoc:
  assumes "chain st a" and "moved_only i (last (st # a)) m"
  shows "chain st (a @ [m])"
  unfolding chain_def
proof (intro allI impI)
  fix k assume k: "k < length (a @ [m])"
  show "\<exists>i. moved_only i ((st # a @ [m]) ! k) ((a @ [m]) ! k)"
  proof (cases "k < length a")
    case True
    then have "(st # a @ [m]) ! k = (st # a) ! k" "(a @ [m]) ! k = a ! k"
      by (simp_all add: nth_append nth_Cons')
    with assms(1) True show ?thesis by (simp add: chain_def)
  next
    case False
    with k have ka: "k = length a" by simp
    have "(st # a @ [m]) ! k = last (st # a)"
      unfolding ka using nth_append_length[of "st # butlast a" ] 
      by (metis append_Cons last_conv_nth length_Cons diff_Suc_1 list.distinct(1) nth_append lessI)
    moreover have "(a @ [m]) ! k = m" by (simp add: ka)
    ultimately show ?thesis using assms(2) by auto
  qed
qed

lemma moved_only_move_player:
  assumes e: "enum_ok ((i, p) # rest) c" and c': "c' = c \<or> c' = set_reached i c"
    and ne: "cur \<noteq> position p"
  shows "moved_only i c (move_player i p cur c')"
proof -
  from enum_ok_head[OF e] have i: "i < length (players c)" and p: "players c ! i = p" by simp_all
  from c' have pl: "players c' = players c" by auto
  show ?thesis
    unfolding moved_only_def using i p pl ne c' by auto
qed

lemma simulate_players_chain:
  assumes run: "simulate_players self r_row c_col rest cs acc = Some (Inr out)"
    and dir: "(r_row, c_col) \<noteq> (0, 0)"
    and init: "enum_ok rest cs" "cs = last (st # acc)" "chain st acc"
  shows "chain st out"
proof -
  let ?I = "\<lambda>rest c a. enum_ok rest c \<and> c = last (st # a) \<and> chain st a"
  have "\<exists>cs'. ?I [] cs' out"
  proof (rule simulate_players_rule[where I = ?I, OF run])
    show "?I rest cs acc" using init by blast
  next
    fix i p rest c a
    assume inv: "?I ((i, p) # rest) c a"
    then have e: "enum_ok ((i, p) # rest) c" by blast
    have "enum_ok rest c" by (rule enum_ok_tail[OF e]) simp
    with inv show "?I rest c a" by blast
  next
    fix i p rest c a c'
    assume inv: "?I ((i, p) # rest) c a"
      and post: "slide_post self c i r_row c_col (fst (position p)) (snd (position p)) c' (position p)"
    from post have "slide_post self c i r_row c_col (fst (position p)) (snd (position p)) c'
        (fst (position p), snd (position p))" by simp
    from slide_post_unmoved[OF this dir] have c': "c' = c" by simp
    from inv have e: "enum_ok ((i, p) # rest) c" by blast
    have "enum_ok rest c" by (rule enum_ok_tail[OF e]) simp
    with inv show "?I rest c' a" unfolding c' by blast
  next
    fix i p rest c a c' cur
    assume inv: "?I ((i, p) # rest) c a"
      and post: "slide_post self c i r_row c_col (fst (position p)) (snd (position p)) c' cur"
      and ne: "cur \<noteq> position p"
    let ?m = "move_player i p cur c'"
    from inv have e: "enum_ok ((i, p) # rest) c" and l: "c = last (st # a)" and ch: "chain st a"
      by blast+
    note c' = slide_post_cases[OF post]
    from c' have pl: "players c' = players c" by auto
    have "enum_ok rest ?m"
      by (rule enum_ok_tail[OF e, where q = "p\<lparr>position := cur\<rparr>"]) (simp add: pl)
    moreover have "?m = last (st # a @ [?m])" by simp
    moreover from moved_only_move_player[OF e c' ne] l have "moved_only i (last (st # a)) ?m" by simp
    from chain_snoc[OF ch this] have "chain st (a @ [?m])" .
    ultimately show "?I rest ?m (a @ [?m])" by blast
  qed
  then show ?thesis by blast
qed

text \<open>Claim C1, as amended. For every game, every input state and every pair of deltas other
  than \<open>(0, 0)\<close> (so for the four cardinal directions), one working copy accumulates the moves
  of a \<^verbatim>\<open>simulate_move\<close> call: every snapshot in the returned list is the snapshot before it
  (the input state, for the first) with exactly one further player moved, so it includes the
  moves of all players processed earlier in the call.\<close>

theorem successor_snapshots_accumulate:
  assumes "simulate_move self current_state r_row c_col = Some (Inr new_states)"
    and "(r_row, c_col) \<noteq> (0, 0)" and "k < length new_states"
  shows "\<exists>i. moved_only i ((current_state # new_states) ! k) (new_states ! k)"
proof -
  have "chain current_state new_states"
    by (rule simulate_players_chain[OF assms(1)[unfolded simulate_move_def] assms(2)])
       (simp_all add: enum_ok_enumerate chain_def)
  with assms(3) show ?thesis by (simp add: chain_def)
qed

lemma scenario_F_left:
  "simulate_move scenario_F (state scenario_F) 0 (- 1) = Some (Inr [F_left, F_left_2])"
  by code_simp

theorem successor_snapshots_accumulate_witness:
  "simulate_move scenario_F (state scenario_F) 0 (- 1) = Some (Inr [F_left, F_left_2]) \<and>
   (0 :: int, - 1 :: int) \<noteq> (0, 0) \<and> 1 < length [F_left, F_left_2] \<and>
   (\<exists>i. moved_only i ((state scenario_F # [F_left, F_left_2]) ! 1) ([F_left, F_left_2] ! 1))"
proof -
  have d: "(0 :: int, - 1 :: int) \<noteq> (0, 0)" by simp
  have k: "1 < length [F_left, F_left_2]" by simp
  from successor_snapshots_accumulate[OF scenario_F_left d k] scenario_F_left
  show ?thesis by simp
qed

lemma scenario_C_code:
  "simulate_move scenario_C (state scenario_C) 0 1 =
     Some (Inr [\<lparr>walls = [], goals = [\<lparr>position = (0, 4)\<rparr>, \<lparr>position = (0, 3)\<rparr>],
                 players = [\<lparr>position = (0, 4)\<rparr>, \<lparr>position = (0, 0)\<rparr>],
                 reached_goal = [True, False]\<rparr>])"
  by code_simp

lemma scenario_C_on_copy:
  "simulate_move_on_copy scenario_C (state scenario_C) 0 1 =
     Some (Inr [\<lparr>walls = [], goals = [\<lparr>position = (0, 4)\<rparr>, \<lparr>position = (0, 3)\<rparr>],
                 players = [\<lparr>position = (0, 4)\<rparr>, \<lparr>position = (0, 0)\<rparr>],
                 reached_goal = [True, False]\<rparr>,
                \<lparr>walls = [], goals = [\<lparr>position = (0, 4)\<rparr>, \<lparr>position = (0, 3)\<rparr>],
                 players = [\<lparr>position = (0, 4)\<rparr>, \<lparr>position = (0, 3)\<rparr>],
                 reached_goal = [True, True]\<rparr>])"
  by code_simp

text \<open>Claim C1 as stated fails. On the Scenario C board the first player slides right from
  \<open>(0, 1)\<close> to \<open>(0, 4)\<close>; in the working copy the cell \<open>(0, 1)\<close> is then free, but the second
  player, at \<open>(0, 0)\<close>, is still refused the cell \<open>(0, 1)\<close> and yields no successor, because
  \<open>is_valid_move\<close> reads the state stored in the game object. With the validity checks made
  on the working copy the same call returns a second successor.\<close>

theorem validity_checks_on_working_copy_counterexample:
  "\<not> (simulate_move scenario_C (state scenario_C) 0 1 =
       simulate_move_on_copy scenario_C (state scenario_C) 0 1)"
  unfolding scenario_C_code scenario_C_on_copy by simp

section \<open>A player that starts on its goal\<close>

lemma simulate_players_leaves_goal:
  fixes p0 :: piece
  assumes run: "simulate_players self r_row c_col rest cs acc = Some (Inr out)"
    and dir: "(r_row, c_col) \<noteq> (0, 0)"
    and goal: "py_index (goals cs) (int i) = Some goal" "position p0 = position goal"
    and first: "is_valid_move self (fst (position p0) + r_row) (snd (position p0) + c_col) (int i) = Inr True"
    and init: "(i, p0) \<in> set rest" "distinct (map fst rest)"
      "py_index (reached_goal cs) (int i) = Some False" "i < length (players cs)"
  shows "\<exists>st' \<in> set out. i < length (players st') \<and> position (players st' ! i) \<noteq> position goal \<and>
           py_index (reached_goal st') (int i) = Some False"
proof -
  let ?P = "\<lambda>st' :: GameState. i < length (players st') \<and> position (players st' ! i) \<noteq> position goal \<and>
           py_index (reached_goal st') (int i) = Some False"
  let ?I = "\<lambda>(rest :: (nat \<times> piece) list) (c :: GameState) (a :: GameState list). goals c = goals cs \<and>
       ((\<exists>s \<in> set a. ?P s) \<or>
        (i, p0) \<in> set rest \<and> distinct (map fst rest) \<and>
        py_index (reached_goal c) (int i) = Some False \<and> i < length (players c))"
  have "\<exists>cs'. ?I [] cs' out"
  proof (rule simulate_players_rule[where I = ?I, OF run])
    show "?I rest cs acc" using init by simp
  next
    fix j q rest c a
    assume "?I ((j, q) # rest) c a" and "py_index (reached_goal c) (int j) = Some True"
    then show "?I rest c a" by auto
  next
    fix j q rest c a c'
    assume inv: "?I ((j, q) # rest) c a"
      and post: "slide_post self c j r_row c_col (fst (position q)) (snd (position q)) c' (position q)"
    from post have "slide_post self c j r_row c_col (fst (position q)) (snd (position q)) c'
        (fst (position q), snd (position q))" by simp
    from slide_post_unmoved[OF this dir]
    have c': "c' = c" and nv: "is_valid_move self (fst (position q) + r_row) (snd (position q) + c_col) (int j) = Inr False"
      by simp_all
    from nv first goal(2) have "(j, q) \<noteq> (i, p0)" by auto
    with inv show "?I rest c' a" unfolding c' by auto
  next
    fix j q rest c a c' cur
    assume inv: "?I ((j, q) # rest) c a"
      and post: "slide_post self c j r_row c_col (fst (position q)) (snd (position q)) c' cur"
      and ne: "cur \<noteq> position q"
    let ?m = "move_player j q cur c'"
    note c' = slide_post_reached[OF post]
    from inv c' have g: "goals ?m = goals cs" by auto
    show "?I rest ?m (a @ [?m])"
    proof (cases "\<exists>s \<in> set a. ?P s")
      case True
      with g show ?thesis by auto
    next
      case False
      with inv have in_rest: "(i, p0) \<in> set ((j, q) # rest)" and dist: "distinct (map fst ((j, q) # rest))"
        and fl: "py_index (reached_goal c) (int i) = Some False" and len: "i < length (players c)"
        and gc: "goals c = goals cs"
        by auto
      show ?thesis
      proof (cases "(j, q) = (i, p0)")
        case True
        then have jq: "j = i" "q = p0" by simp_all
        from c' have "c' = c"
        proof
          assume "c' = set_reached j c \<and> (\<exists>goal. py_index (goals c) (int j) = Some goal \<and> position goal = cur)"
          with gc goal ne jq show ?thesis by auto
        qed
        with fl len ne goal(2) jq have "?P ?m" by (auto simp: py_index_nat split: if_splits)
        with g show ?thesis by auto
      next
        case False
        with in_rest dist have ir: "(i, p0) \<in> set rest" and ji: "j \<noteq> i"
          by (auto simp: rev_image_eqI)
        from c' fl ji have "py_index (reached_goal ?m) (int i) = Some False"
          by (auto simp: py_index_nat split: if_splits)
        moreover from c' len have "i < length (players ?m)" by auto
        ultimately show ?thesis using g ir dist by auto
      qed
    qed
  qed
  then show ?thesis by auto
qed

text \<open>Claim C10. \<^verbatim>\<open>Game.__init__\<close> sets every reached flag to false, also for a player whose
  starting position is its goal position. Such a player is not frozen: when the first cell
  in a direction is valid for it, \<^verbatim>\<open>simulate_move\<close> on the initial state returns a successor
  in which the player stands off its goal cell, with its flag still false.\<close>

theorem start_on_goal_not_frozen:
  assumes "self = Game_init rows' cols' board"
    and "i < length (board_players board)"
    and "py_index (board_goals board) (int i) = Some goal"
    and "position (board_players board ! i) = position goal"
    and "(r_row, c_col) \<noteq> (0, 0)"
    and "is_valid_move self (fst (position goal) + r_row) (snd (position goal) + c_col) (int i) = Inr True"
    and "simulate_move self (state self) r_row c_col = Some (Inr new_states)"
  shows "reached_goal (state self) = replicate (length (board_players board)) False \<and>
         (\<exists>st' \<in> set new_states. i < length (players st') \<and>
            position (players st' ! i) \<noteq> position goal \<and>
            py_index (reached_goal st') (int i) = Some False)"
proof
  show fl: "reached_goal (state self) = replicate (length (board_players board)) False"
    by (simp add: assms(1) Game_init_def)
  have pl: "players (state self) = board_players board" and gl: "goals (state self) = board_goals board"
    by (simp_all add: assms(1) Game_init_def)
  let ?p0 = "board_players board ! i"
  have "(i, ?p0) \<in> set (enumerate 0 (players (state self)))"
    using assms(2) by (simp add: pl in_set_enumerate_eq)
  moreover have "distinct (map fst (enumerate 0 (players (state self))))" by simp
  moreover have "py_index (reached_goal (state self)) (int i) = Some False"
    using assms(2) by (simp add: fl py_index_nat)
  moreover have "i < length (players (state self))" using assms(2) by (simp add: pl)
  moreover have "py_index (goals (state self)) (int i) = Some goal" using assms(3) by (simp add: gl)
  moreover have "is_valid_move self (fst (position ?p0) + r_row) (snd (position ?p0) + c_col) (int i) = Inr True"
    using assms(6) by (simp add: assms(4))
  ultimately show "\<exists>st' \<in> set new_states. i < length (players st') \<and>
            position (players st' ! i) \<noteq> position goal \<and>
            py_index (reached_goal st') (int i) = Some False"
    using simulate_players_leaves_goal[OF assms(7)[unfolded simulate_move_def] assms(5) _ assms(4)]
    by blast
qed

lemma scenario_G_right: "simulate_move scenario_G (state scenario_G) 0 1 = Some (Inr [G_right])"
  by code_simp

lemma scenario_G_first_step:
  "is_valid_move scenario_G (fst (position \<lparr>position = (0, 0)\<rparr>) + 0) (snd (position \<lparr>position = (0, 0)\<rparr>) + 1) (int 0) = Inr True"
  by code_simp

theorem start_on_goal_not_frozen_witness:
  "scenario_G = Game_init 1 3 \<lparr>board_walls = [], board_players = [\<lparr>position = (0, 0)\<rparr>],
                    board_goals = [\<lparr>position = (0, 0)\<rparr>]\<rparr> \<and>
   simulate_move scenario_G (state scenario_G) 0 1 = Some (Inr [G_right]) \<and>
   reached_goal (state scenario_G) = replicate 1 False \<and>
   (\<exists>st' \<in> set [G_right]. 0 < length (players st') \<and>
      position (players st' ! 0) \<noteq> position \<lparr>position = (0, 0)\<rparr> \<and>
      py_index (reached_goal st') (int 0) = Some False)"
proof -
  let ?b = "\<lparr>board_walls = [], board_players = [\<lparr>position = (0, 0)\<rparr>],
                    board_goals = [\<lparr>position = (0, 0)\<rparr>]\<rparr>"
  have a: "scenario_G = Game_init 1 3 ?b" by (simp add: scenario_G_def)
  have b: "0 < length (board_players ?b)" by simp
  have c: "py_index (board_goals ?b) (int 0) = Some \<lparr>position = (0, 0)\<rparr>" by (simp add: py_index_def)
  have d: "position (board_players ?b ! 0) = position \<lparr>position = (0, 0)\<rparr>" by simp
  have e: "(0 :: int, 1 :: int) \<noteq> (0, 0)" by simp
  from start_on_goal_not_frozen[OF a b c d e scenario_G_first_step scenario_G_right] a scenario_G_right
  show ?thesis by simp
qed


section \<open>The heap operations keep the entries\<close>

lemma siftdown_loop_length [simp]:
  "length (siftdown_loop lt heap startpos newitem pos) = length heap"
  by (induction lt heap startpos newitem pos rule: siftdown_loop.induct)
     (subst siftdown_loop.simps, simp add: Let_def)

lemma mset_update_swap:
  assumes "i < length xs" "j < length xs" "i \<noteq> j"
  shows "mset (xs[i := xs ! j, j := x]) = mset (xs[i := x])"
  using assms by (simp add: mset_update nth_list_update) 

lemma siftdown_loop_mset:
  "pos < length heap \<Longrightarrow>
     mset (siftdown_loop lt heap startpos newitem pos) = mset (heap[pos := newitem])"
proof (induction lt heap startpos newitem pos rule: siftdown_loop.induct)
  case (1 lt heap startpos newitem pos)
  show ?case
  proof (cases "pos > startpos \<and> lt newitem (heap ! ((pos - 1) div 2))")
    case True
    let ?pp = "(pos - 1) div 2"
    from True div_le_dividend[of "pos - 1" 2] have lt: "?pp < pos" by linarith
    with "1.prems" have pl: "?pp < length heap" by simp
    from True have "siftdown_loop lt heap startpos newitem pos =
        siftdown_loop lt (heap[pos := heap ! ?pp]) startpos newitem ?pp"
      by (subst siftdown_loop.simps) (simp add: Let_def)
    also have "mset \<dots> = mset (heap[pos := heap ! ?pp, ?pp := newitem])"
      using True pl by (intro "1.IH") simp_all
    also have "\<dots> = mset (heap[pos := newitem])"
      using "1.prems" pl lt by (intro mset_update_swap) simp_all
    finally show ?thesis .
  next
    case False
    then show ?thesis by (subst siftdown_loop.simps) (auto simp: Let_def)
  qed
qed

lemma siftdown_mset: "pos < length heap \<Longrightarrow> mset (siftdown lt heap startpos pos) = mset heap"
  by (simp add: siftdown_def siftdown_loop_mset)

lemma siftdown_length [simp]: "length (siftdown lt heap startpos pos) = length heap"
  by (simp add: siftdown_def)

lemma heappush_mset: "mset (heappush lt heap item) = add_mset item (mset heap)"
  by (simp add: heappush_def siftdown_mset)

lemma siftup_loop_props:
  "siftup_loop lt heap endpos pos = (pos', heap') \<Longrightarrow> endpos = length heap \<Longrightarrow> pos < length heap \<Longrightarrow>
     pos' < length heap \<and> length heap' = length heap \<and>
     mset (heap'[pos' := x]) = mset (heap[pos := x])"
proof (induction lt heap endpos pos arbitrary: pos' heap' rule: siftup_loop.induct)
  case (1 lt heap endpos pos)
  show ?case
  proof (cases "2 * pos + 1 < endpos")
    case False
    with "1.prems" show ?thesis by (subst (asm) siftup_loop.simps) (simp add: Let_def)
  next
    case True
    define c where "c = (if 2 * pos + 1 + 1 < endpos \<and>
                              \<not> lt (heap ! (2 * pos + 1)) (heap ! (2 * pos + 1 + 1))
                          then 2 * pos + 1 + 1 else 2 * pos + 1)"
    from True "1.prems" have cl: "c < length heap" and cp: "pos \<noteq> c"
      by (auto simp: c_def)
    from True "1.prems"(1) have run: "siftup_loop lt (heap[pos := heap ! c]) endpos c = (pos', heap')"
      by (subst (asm) siftup_loop.simps) (auto simp: Let_def c_def split: if_splits)
    have "pos' < length (heap[pos := heap ! c]) \<and> length heap' = length (heap[pos := heap ! c]) \<and>
          mset (heap'[pos' := x]) = mset (heap[pos := heap ! c, c := x])"
      using True "1.prems" cl
      by (intro "1.IH"[OF refl True refl c_def run]) simp_all
    moreover have "mset (heap[pos := heap ! c, c := x]) = mset (heap[pos := x])"
      using "1.prems" cl cp by (intro mset_update_swap) simp_all
    ultimately show ?thesis by simp
  qed
qed

lemma siftup_mset: "pos < length heap \<Longrightarrow> mset (siftup lt heap pos) = mset heap"
proof -
  assume p: "pos < length heap"
  obtain pos' heap' where r: "siftup_loop lt heap (length heap) pos = (pos', heap')" by force
  from siftup_loop_props[OF r refl p, of "heap ! pos"]
  have "pos' < length heap'" "mset (heap'[pos' := heap ! pos]) = mset heap" by simp_all
  with r show ?thesis by (simp add: siftup_def Let_def siftdown_mset)
qed

lemma heappop_mset:
  "heappop lt heap = Inr (item, heap') \<Longrightarrow> mset heap = add_mset item (mset heap')"
proof -
  assume pop: "heappop lt heap = Inr (item, heap')"
  then have ne: "heap \<noteq> []" by (auto simp: heappop_def)
  then have sn: "heap = butlast heap @ [last heap]" by simp
  show ?thesis
  proof (cases "butlast heap = []")
    case True
    with pop ne sn show ?thesis by (auto simp: heappop_def Let_def)
  next
    case False
    let ?h = "butlast heap"
    from False have l: "0 < length ?h" by (simp del: length_butlast)
    from pop ne False have i: "item = ?h ! 0" and h: "heap' = siftup lt (?h[0 := last heap]) 0"
      by (auto simp: heappop_def Let_def)
    have "mset heap' = mset (?h[0 := last heap])" unfolding h using l by (intro siftup_mset) simp
    also have "\<dots> = add_mset (last heap) (mset ?h - {#?h ! 0#})" using l by (simp add: mset_update)
    finally have "add_mset item (mset heap') = add_mset (last heap) (mset ?h)"
      using l by (simp add: i)
    also have "\<dots> = mset heap" by (subst (2) sn) simp
    finally show ?thesis by simp
  qed
qed



section \<open>What an expansion pushes\<close>

lemma append_new_states_eq:
  "append_new_states frontier new_states path' = frontier @ map (\<lambda>n. (n, path')) new_states"
  by (induction new_states arbitrary: frontier) simp_all

lemma push_new_states_mset:
  "mset (push_new_states pq visited cost new_states path') =
     mset pq + mset (map (\<lambda>n. (cost + 1, n, path')) (filter (\<lambda>n. get_state n \<notin> visited) new_states))"
  by (induction new_states arbitrary: pq) (simp_all add: Let_def heappush_mset)

lemma expand_all_new_states:
  "expand self cs path ms frontier =
     (case all_new_states self cs ms of
        None \<Rightarrow> None
      | Some (Inl e) \<Rightarrow> Some (Inl e)
      | Some (Inr ns) \<Rightarrow> Some (Inr (frontier @ map (\<lambda>n. (n, path @ [cs])) ns)))"
  by (induction ms arbitrary: frontier)
     (auto simp: append_new_states_eq split: option.splits sum.splits)

lemma push_new_states_append:
  "push_new_states pq visited cost (ns @ ms) path' =
     push_new_states (push_new_states pq visited cost ns path') visited cost ms path'"
  by (induction ns arbitrary: pq) (simp_all add: Let_def)

lemma ucs_expand_all_new_states:
  "ucs_expand self cost cs path visited ms pq =
     (case all_new_states self cs ms of
        None \<Rightarrow> None
      | Some (Inl e) \<Rightarrow> Some (Inl e)
      | Some (Inr ns) \<Rightarrow> Some (Inr (push_new_states pq visited cost ns (path @ [cs]))))"
  by (induction ms arbitrary: pq)
     (auto simp: push_new_states_append split: option.splits sum.splits)

text \<open>Claim C4. Take a popped state that is not a goal state and whose key is not in the
  visited set, so that it is expanded, and let \<open>ns\<close> be the successors that the four
  \<^verbatim>\<open>simulate_move\<close> calls generate. The loop body of depth-first and of breadth-first search
  goes on to the next iteration with an entry appended to the frontier for every one of
  them, with no test, also for those whose key is in the visited set. The loop body of
  uniform-cost search goes on with a queue that holds, besides the entries left by the pop,
  exactly the successors whose key is not in the visited set (which by then holds the key of
  the expanded state): the others are dropped before the push.\<close>

theorem ucs_filters_before_push:
  assumes "\<not> py_all (reached_goal current_state)" and "get_state current_state \<notin> visited"
    and "all_new_states self current_state moves = Some (Inr ns)"
  shows "dfs_body self (stack @ [(current_state, path)]) visited visited_states nodes_visited =
           Some (Inr (Next (stack @ map (\<lambda>n. (n, path @ [current_state])) ns,
                            insert (get_state current_state) visited,
                            visited_states @ [current_state], nodes_visited + 1))) \<and>
         bfs_body self ((current_state, path) # queue) visited visited_states nodes_visited =
           Some (Inr (Next (queue @ map (\<lambda>n. (n, path @ [current_state])) ns,
                            insert (get_state current_state) visited,
                            visited_states @ [current_state], nodes_visited + 1))) \<and>
         (heappop entry_lt priority_queue = Inr ((cost, current_state, path), popped) \<longrightarrow>
          (\<exists>priority_queue'.
             ucs_body self priority_queue visited visited_states nodes_visited =
               Some (Inr (Next (priority_queue', insert (get_state current_state) visited,
                                visited_states @ [current_state], nodes_visited + 1))) \<and>
             mset priority_queue' =
               mset popped +
               mset (map (\<lambda>n. (cost + 1, n, path @ [current_state]))
                      (filter (\<lambda>n. get_state n \<notin> insert (get_state current_state) visited) ns))))"
proof (intro conjI impI)
  show "dfs_body self (stack @ [(current_state, path)]) visited visited_states nodes_visited =
           Some (Inr (Next (stack @ map (\<lambda>n. (n, path @ [current_state])) ns,
                            insert (get_state current_state) visited,
                            visited_states @ [current_state], nodes_visited + 1)))"
    using assms by (simp add: dfs_body_def visit_def Let_def expand_all_new_states)
next
  show "bfs_body self ((current_state, path) # queue) visited visited_states nodes_visited =
           Some (Inr (Next (queue @ map (\<lambda>n. (n, path @ [current_state])) ns,
                            insert (get_state current_state) visited,
                            visited_states @ [current_state], nodes_visited + 1)))"
    using assms by (simp add: bfs_body_def visit_def Let_def expand_all_new_states)
next
  assume pop: "heappop entry_lt priority_queue = Inr ((cost, current_state, path), popped)"
  let ?pq = "push_new_states popped (insert (get_state current_state) visited) cost ns
               (path @ [current_state])"
  have "ucs_body self priority_queue visited visited_states nodes_visited =
          Some (Inr (Next (?pq, insert (get_state current_state) visited,
                           visited_states @ [current_state], nodes_visited + 1)))"
    using assms pop by (simp add: ucs_body_def Let_def ucs_expand_all_new_states)
  moreover have "mset ?pq =
      mset popped +
      mset (map (\<lambda>n. (cost + 1, n, path @ [current_state]))
             (filter (\<lambda>n. get_state n \<notin> insert (get_state current_state) visited) ns))"
    by (rule push_new_states_mset)
  ultimately show "\<exists>priority_queue'.
             ucs_body self priority_queue visited visited_states nodes_visited =
               Some (Inr (Next (priority_queue', insert (get_state current_state) visited,
                                visited_states @ [current_state], nodes_visited + 1))) \<and>
             mset priority_queue' =
               mset popped +
               mset (map (\<lambda>n. (cost + 1, n, path @ [current_state]))
                      (filter (\<lambda>n. get_state n \<notin> insert (get_state current_state) visited) ns))"
    by blast
qed

lemma A_all_new_states: "all_new_states scenario_A (state scenario_A) moves = Some (Inr [A_down, won_state])"
  by code_simp

text \<open>On Scenario A with the key of the downward successor already in the visited set:
  depth-first and breadth-first search append both successors, uniform-cost search pushes
  the goal state alone.\<close>

theorem ucs_filters_before_push_witness:
  "\<not> py_all (reached_goal (state scenario_A)) \<and>
   get_state (state scenario_A) \<notin> {get_state A_down} \<and>
   all_new_states scenario_A (state scenario_A) moves = Some (Inr [A_down, won_state]) \<and>
   heappop entry_lt [(0, state scenario_A, [])] = Inr ((0, state scenario_A, []), []) \<and>
   dfs_body scenario_A [(state scenario_A, [])] {get_state A_down} [] 0 =
     Some (Inr (Next ([(A_down, [state scenario_A]), (won_state, [state scenario_A])],
                      {get_state (state scenario_A), get_state A_down}, [state scenario_A], 1))) \<and>
   bfs_body scenario_A [(state scenario_A, [])] {get_state A_down} [] 0 =
     Some (Inr (Next ([(A_down, [state scenario_A]), (won_state, [state scenario_A])],
                      {get_state (state scenario_A), get_state A_down}, [state scenario_A], 1))) \<and>
   (\<exists>priority_queue'.
      ucs_body scenario_A [(0, state scenario_A, [])] {get_state A_down} [] 0 =
        Some (Inr (Next (priority_queue', {get_state (state scenario_A), get_state A_down},
                         [state scenario_A], 1))) \<and>
      mset priority_queue' = {#(1, won_state, [state scenario_A])#})"
proof -
  have h1: "\<not> py_all (reached_goal (state scenario_A))" by code_simp
  have h2: "get_state (state scenario_A) \<notin> {get_state A_down}" by code_simp
  have h3: "heappop entry_lt [(0, state scenario_A, [])] = Inr ((0, state scenario_A, []), [])"
    by (simp add: heappop_def)
  have f: "filter (\<lambda>n. get_state n \<notin> {get_state (state scenario_A), get_state A_down})
             [A_down, won_state] = [won_state]"
    by code_simp
  note t = ucs_filters_before_push[OF h1 h2 A_all_new_states, where stack = "[]" and path = "[]"
      and visited_states = "[]" and nodes_visited = 0 and queue = "[]"
      and priority_queue = "[(0, state scenario_A, [])]" and cost = 0 and popped = "[]"]
  from t h1 h2 h3 A_all_new_states f show ?thesis by simp
qed


section \<open>Termination of the searches\<close>







lemma state_ok_set_reached [simp]: "state_ok self (set_reached i cs) = state_ok self cs"
  by (simp add: state_ok_def)

















section \<open>The order in which uniform-cost search pops\<close>

lemma entry_le_refl [simp]: "entry_le a a"
  by (cases a) (simp add: entry_le_def entry_lt_def GameState_lt_def)

lemma entry_le_trans: "entry_le a b \<Longrightarrow> entry_le b c \<Longrightarrow> entry_le a c"
  by (cases a; cases b; cases c) (auto simp: entry_le_def entry_lt_def GameState_lt_def split: if_splits)

lemma entry_lt_le: "entry_lt a b \<Longrightarrow> entry_le a b"
  by (cases a; cases b) (auto simp: entry_le_def entry_lt_def GameState_lt_def split: if_splits)

lemma entry_le_total: "\<not> entry_le a b \<Longrightarrow> entry_le b a"
  by (cases a; cases b) (auto simp: entry_le_def entry_lt_def GameState_lt_def split: if_splits)

lemma heap_inv_iff:
  "heap_inv heap \<longleftrightarrow> (\<forall>i. 0 < i \<and> i < length heap \<longrightarrow> entry_le (heap ! ((i - 1) div 2)) (heap ! i))"
  by (auto simp: heap_inv_def list_all_iff)

lemma parent_less: "0 < i \<Longrightarrow> (i - 1) div 2 < (i :: nat)"
  using div_le_dividend[of "i - 1" 2] by linarith

lemma heap_inv_root:
  assumes "heap_inv heap"
  shows "i < length heap \<Longrightarrow> entry_le (heap ! 0) (heap ! i)"
proof (induction i rule: less_induct)
  case (less i)
  show ?case
  proof (cases "i = 0")
    case True
    then show ?thesis by simp
  next
    case False
    then have p: "(i - 1) div 2 < i" by (intro parent_less) simp
    with less.prems have "(i - 1) div 2 < length heap" by simp
    from less.IH[OF p this] have "entry_le (heap ! 0) (heap ! ((i - 1) div 2))" .
    moreover from assms False less.prems have "entry_le (heap ! ((i - 1) div 2)) (heap ! i)"
      by (simp add: heap_inv_iff)
    ultimately show ?thesis by (rule entry_le_trans)
  qed
qed

lemma siftdown_loop_heap_inv:
  "pos < length heap \<Longrightarrow> up_inv heap pos x \<Longrightarrow> heap_inv (siftdown_loop entry_lt heap 0 x pos)"
proof (induction entry_lt heap "0 :: nat" x pos rule: siftdown_loop.induct)
  case (1 heap x pos)
  let ?pp = "(pos - 1) div 2"
  let ?v = "heap[pos := x]"
  note inv = "1.prems"(2)[unfolded up_inv_def]
  from inv have c1: "\<And>i. 0 < i \<Longrightarrow> i < length heap \<Longrightarrow> i \<noteq> pos \<Longrightarrow> entry_le (?v ! ((i - 1) div 2)) (?v ! i)"
    by blast
  from inv have c2: "\<And>i. 0 < i \<Longrightarrow> i < length heap \<Longrightarrow> (i - 1) div 2 = pos \<Longrightarrow> 0 < pos \<Longrightarrow>
      entry_le (heap ! ?pp) (heap ! i)"
    by blast
  show ?case
  proof (cases "0 < pos \<and> entry_lt x (heap ! ?pp)")
    case False
    then have res: "siftdown_loop entry_lt heap 0 x pos = ?v"
      by (subst siftdown_loop.simps) (auto simp: Let_def)
    show ?thesis unfolding res heap_inv_iff
    proof (intro allI impI)
      fix i assume i: "0 < i \<and> i < length ?v"
      show "entry_le (?v ! ((i - 1) div 2)) (?v ! i)"
      proof (cases "i = pos")
        case ne: False
        with i c1 show ?thesis by simp
      next
        case True
        with i False have "entry_le (heap ! ?pp) x" by (simp add: entry_le_def)
        moreover from True i have "?pp \<noteq> pos" using parent_less[of pos] by simp
        ultimately show ?thesis using True i by simp
      qed
    qed
  next
    case True
    then have pos: "0 < pos" and lt: "entry_lt x (heap ! ?pp)" by simp_all
    from parent_less[OF pos] have pp: "?pp < pos" .
    with "1.prems"(1) have ppl: "?pp < length heap" by simp
    let ?h = "heap[pos := heap ! ?pp]"
    from True have res: "siftdown_loop entry_lt heap 0 x pos = siftdown_loop entry_lt ?h 0 x ?pp"
      by (subst siftdown_loop.simps) (simp add: Let_def)
    have "up_inv ?h ?pp x"
      unfolding up_inv_def
    proof (intro conjI allI impI)
      fix i assume i: "0 < i \<and> i < length ?h \<and> i \<noteq> ?pp"
      let ?w = "?h[?pp := x]"
      have ipl: "(i - 1) div 2 < length heap" using i parent_less[of i] by simp
      show "entry_le (?w ! ((i - 1) div 2)) (?w ! i)"
      proof (cases "i = pos")
        case True
        with pp ppl "1.prems"(1) lt show ?thesis by (simp add: entry_lt_le)
      next
        case ne: False
        with i have wi: "?w ! i = heap ! i" by simp
        from c1[of i] i ne have base: "entry_le (?v ! ((i - 1) div 2)) (heap ! i)" by simp
        show ?thesis
        proof (cases "(i - 1) div 2 = ?pp")
          case True
          with base pp have "entry_le (heap ! ?pp) (heap ! i)" by simp
          with entry_lt_le[OF lt] have "entry_le x (heap ! i)" by (rule entry_le_trans)
          with True ppl wi show ?thesis by simp
        next
          case npp: False
          show ?thesis
          proof (cases "(i - 1) div 2 = pos")
            case True
            from c2[of i] i True pos have "entry_le (heap ! ?pp) (heap ! i)" by simp
            with True pp "1.prems"(1) wi show ?thesis by simp
          next
            case False
            with npp base ipl wi show ?thesis by simp
          qed
        qed
      qed
    next
      fix i assume i: "0 < i \<and> i < length ?h \<and> (i - 1) div 2 = ?pp \<and> 0 < ?pp"
      let ?g = "(?pp - 1) div 2"
      from i have "0 < ?pp" by blast
      from parent_less[OF this] have g: "?g < ?pp" .
      with pp have gne: "?g \<noteq> pos" by simp
      from c1[of ?pp] i pp ppl gne have gp: "entry_le (heap ! ?g) (heap ! ?pp)" by simp
      show "entry_le (?h ! ?g) (?h ! i)"
      proof (cases "i = pos")
        case True
        with gp gne "1.prems"(1) show ?thesis by simp
      next
        case False
        from c1[of i] i False pp have "entry_le (heap ! ?pp) (heap ! i)" by simp
        with gp have "entry_le (heap ! ?g) (heap ! i)" by (rule entry_le_trans)
        with False gne show ?thesis by simp
      qed
    qed
    with "1.hyps"[OF _ refl refl] True ppl have "heap_inv (siftdown_loop entry_lt ?h 0 x ?pp)" by simp
    with res show ?thesis by simp
  qed
qed


lemma heappush_heap_inv:
  assumes "heap_inv heap"
  shows "heap_inv (heappush entry_lt heap item)"
proof -
  let ?h = "heap @ [item]"
  have "up_inv ?h (length heap) item"
    unfolding up_inv_def
  proof (intro conjI allI impI)
    fix i assume i: "0 < i \<and> i < length ?h \<and> i \<noteq> length heap"
    then have il: "i < length heap" by simp
    with i parent_less[of i] have pl: "(i - 1) div 2 < length heap" by simp
    from assms i il have "entry_le (heap ! ((i - 1) div 2)) (heap ! i)" by (simp add: heap_inv_iff)
    with il pl show "entry_le (?h[length heap := item] ! ((i - 1) div 2)) (?h[length heap := item] ! i)"
      by (simp add: nth_append)
  next
    fix i assume i: "0 < i \<and> i < length ?h \<and> (i - 1) div 2 = length heap \<and> 0 < length heap"
    then have "i \<le> length heap" by simp
    with i parent_less[of i] have False by simp
    then show "entry_le (?h ! ((length heap - 1) div 2)) (?h ! i)" ..
  qed
  then have "heap_inv (siftdown_loop entry_lt ?h 0 item (length heap))"
    by (intro siftdown_loop_heap_inv) simp_all
  then show ?thesis by (simp add: heappush_def siftdown_def)
qed

lemma siftup_loop_down_inv:
  "siftup_loop entry_lt heap endpos pos = (pos', heap') \<Longrightarrow> endpos = length heap \<Longrightarrow> pos < length heap \<Longrightarrow>
     down_inv heap pos \<Longrightarrow>
     down_inv heap' pos' \<and> length heap' \<le> 2 * pos' + 1"
proof (induction entry_lt heap endpos pos arbitrary: pos' heap' rule: siftup_loop.induct)
  case (1 heap endpos pos)
  show ?case
  proof (cases "2 * pos + 1 < endpos")
    case False
    with "1.prems" show ?thesis by (subst (asm) siftup_loop.simps) (auto simp: Let_def)
  next
    case True
    define c where "c = (if 2 * pos + 1 + 1 < endpos \<and>
                              \<not> entry_lt (heap ! (2 * pos + 1)) (heap ! (2 * pos + 1 + 1))
                          then 2 * pos + 1 + 1 else 2 * pos + 1)"
    let ?h = "heap[pos := heap ! c]"
    from True "1.prems" have cl: "c < length heap" and cp: "pos \<noteq> c" and c0: "0 < c"
      and cpar: "(c - 1) div 2 = pos"
      by (auto simp: c_def)
    from True "1.prems"(1) have run: "siftup_loop entry_lt ?h endpos c = (pos', heap')"
      by (subst (asm) siftup_loop.simps) (auto simp: Let_def c_def split: if_splits)
    note inv = "1.prems"(4)[unfolded down_inv_def, rule_format]
    have small: "entry_le (heap ! c) (heap ! i)" if "0 < i" "i < length heap" "(i - 1) div 2 = pos" for i
    proof -
      from that have "i = 2 * pos + 1 \<or> i = 2 * pos + 1 + 1" by presburger
      then show ?thesis
      proof
        assume l: "i = 2 * pos + 1"
        show ?thesis
        proof (cases "c = i")
          case True
          then show ?thesis by simp
        next
          case False
          with l have "c = 2 * pos + 1 + 1" "\<not> entry_lt (heap ! (2 * pos + 1)) (heap ! (2 * pos + 1 + 1))"
            by (auto simp: c_def split: if_splits)
          with l show ?thesis by (simp add: entry_le_def)
        qed
      next
        assume r: "i = 2 * pos + 1 + 1"
        show ?thesis
        proof (cases "c = i")
          case True
          then show ?thesis by simp
        next
          case False
          with r that "1.prems"(2) have "entry_lt (heap ! (2 * pos + 1)) (heap ! (2 * pos + 1 + 1))"
            and "c = 2 * pos + 1"
            by (auto simp: c_def split: if_splits)
          with r show ?thesis by (simp add: entry_lt_le)
        qed
      qed
    qed
    have "down_inv ?h c"
      unfolding down_inv_def
    proof (intro allI impI)
      fix i assume i: "0 < i \<and> i < length ?h \<and> ((i - 1) div 2 \<noteq> c \<or> 0 < c)"
      then have il: "i < length heap" and i0: "0 < i" by simp_all
      show "entry_le (?h ! ((i - 1) div 2)) (?h ! i)"
      proof (cases "i = pos")
        case True
        with i0 have p0: "0 < pos" by simp
        from parent_less[OF p0] have pp: "(pos - 1) div 2 \<noteq> pos" by simp
        from inv[of pos] p0 "1.prems"(3) have "entry_le (heap ! ((pos - 1) div 2)) (heap ! pos)" by simp
        moreover from inv[of c] c0 cl p0 cpar have "entry_le (heap ! pos) (heap ! c)" by simp
        ultimately have "entry_le (heap ! ((pos - 1) div 2)) (heap ! c)" by (rule entry_le_trans)
        with True pp "1.prems"(3) show ?thesis by simp
      next
        case ne: False
        show ?thesis
        proof (cases "(i - 1) div 2 = pos")
          case True
          from small[OF i0 il True] True ne "1.prems"(3) show ?thesis by simp
        next
          case False
          from inv[of i] i0 il False have "entry_le (heap ! ((i - 1) div 2)) (heap ! i)" by simp
          with False ne show ?thesis by simp
        qed
      qed
    qed
    from "1.hyps"[OF refl True refl c_def run] "1.prems"(2) cl this show ?thesis by simp
  qed
qed

lemma heap_inv_butlast: "heap_inv heap \<Longrightarrow> heap_inv (butlast heap)"
proof -
  assume h: "heap_inv heap"
  show ?thesis unfolding heap_inv_iff
  proof (intro allI impI)
    fix i assume i: "0 < i \<and> i < length (butlast heap)"
    with parent_less[of i] have "(i - 1) div 2 < length (butlast heap)" by simp
    moreover from i have "0 < i \<and> i < length heap" by auto
    with h have "entry_le (heap ! ((i - 1) div 2)) (heap ! i)" unfolding heap_inv_iff by blast
    ultimately show "entry_le (butlast heap ! ((i - 1) div 2)) (butlast heap ! i)"
      using i by (simp add: nth_butlast)
  qed
qed

lemma siftup_root_heap_inv:
  assumes ne: "heap \<noteq> []" and inv: "down_inv heap 0"
  shows "heap_inv (siftup entry_lt heap 0)"
proof -
  obtain pos' heap' where r: "siftup_loop entry_lt heap (length heap) 0 = (pos', heap')" by force
  from ne have l0: "0 < length heap" by simp
  from siftup_loop_props[OF r refl l0] have pl: "pos' < length heap" and len: "length heap' = length heap"
    by simp_all
  from siftup_loop_down_inv[OF r refl l0 inv] have d: "down_inv heap' pos'" and leaf: "length heap' \<le> 2 * pos' + 1"
    by simp_all
  let ?x = "heap ! 0"
  have "up_inv (heap'[pos' := ?x]) pos' ?x"
    unfolding up_inv_def
  proof (intro conjI allI impI)
    fix i assume i: "0 < i \<and> i < length (heap'[pos' := ?x]) \<and> i \<noteq> pos'"
    then have "i \<le> 2 * pos'" using leaf by simp
    with i have np: "(i - 1) div 2 \<noteq> pos'" by presburger
    with d i have "entry_le (heap' ! ((i - 1) div 2)) (heap' ! i)" by (simp add: down_inv_def)
    with np i show "entry_le (heap'[pos' := ?x, pos' := ?x] ! ((i - 1) div 2)) (heap'[pos' := ?x, pos' := ?x] ! i)"
      by simp
  next
    fix i assume i: "0 < i \<and> i < length (heap'[pos' := ?x]) \<and> (i - 1) div 2 = pos' \<and> 0 < pos'"
    then have "i \<le> 2 * pos'" using leaf by simp
    with i have False by presburger
    then show "entry_le (heap'[pos' := ?x] ! ((pos' - 1) div 2)) (heap'[pos' := ?x] ! i)" ..
  qed
  then have "heap_inv (siftdown_loop entry_lt (heap'[pos' := ?x]) 0 ?x pos')"
    using pl len by (intro siftdown_loop_heap_inv) simp_all
  with r pl len show ?thesis by (simp add: siftup_def siftdown_def Let_def)
qed

lemma heappop_heap_inv:
  assumes h: "heap_inv heap" and pop: "heappop entry_lt heap = Inr (item, heap')"
  shows "heap_inv heap' \<and> (\<forall>e \<in> set heap'. entry_le item e)"
proof -
  from pop have ne: "heap \<noteq> []" by (auto simp: heappop_def)
  have root: "item = heap ! 0"
    using pop ne by (auto simp: heappop_def Let_def nth_butlast last_conv_nth split: if_splits)
       (metis One_nat_def Suc_lessI butlast.simps(2) diff_Suc_1 length_butlast length_greater_0_conv
              list.size(3) nth_butlast zero_less_diff)+
  have hi: "heap_inv heap'"
  proof (cases "butlast heap = []")
    case True
    with pop ne show ?thesis by (auto simp: heappop_def Let_def heap_inv_def)
  next
    case False
    let ?b = "butlast heap"
    from pop ne False have h': "heap' = siftup entry_lt (?b[0 := last heap]) 0"
      by (auto simp: heappop_def Let_def)
    from heap_inv_butlast[OF h] have "heap_inv ?b" .
    then have "down_inv (?b[0 := last heap]) 0"
      unfolding down_inv_def heap_inv_iff
    proof (intro allI impI)
      fix i
      assume a: "\<forall>i. 0 < i \<and> i < length ?b \<longrightarrow> entry_le (?b ! ((i - 1) div 2)) (?b ! i)"
        and i: "0 < i \<and> i < length (?b[0 := last heap]) \<and> ((i - 1) div 2 \<noteq> 0 \<or> (0 :: nat) < 0)"
      with a have "entry_le (?b ! ((i - 1) div 2)) (?b ! i)" by simp
      with i show "entry_le (?b[0 := last heap] ! ((i - 1) div 2)) (?b[0 := last heap] ! i)" by simp
    qed
    with False show ?thesis unfolding h' by (intro siftup_root_heap_inv) simp_all
  qed
  have "\<forall>e \<in> set heap'. entry_le item e"
  proof
    fix e assume "e \<in> set heap'"
    with heappop_mset[OF pop] have "e \<in> set heap" by (metis insert_iff set_mset_add_mset_insert set_mset_mset)
    then obtain i where "i < length heap" "heap ! i = e" by (auto simp: in_set_conv_nth)
    with heap_inv_root[OF h, of i] root show "entry_le item e" by simp
  qed
  with hi show ?thesis ..
qed

lemma push_new_states_heap_inv:
  "heap_inv pq \<Longrightarrow> heap_inv (push_new_states pq visited cost ns path')"
  by (induction ns arbitrary: pq) (simp_all add: Let_def heappush_heap_inv)

lemma ucs_body_heap_inv:
  assumes h: "heap_inv pq"
    and body: "ucs_body self pq visited vs nv = Some (Inr (Next (pq', rest)))"
  shows "heap_inv pq'"
proof (cases "heappop entry_lt pq")
  case (Inl e)
  with body show ?thesis by (simp add: ucs_body_def)
next
  case (Inr r)
  obtain cost cs path popped where r: "r = ((cost, cs, path), popped)"
    by (cases r) (metis prod_cases3)
  from heappop_heap_inv[OF h Inr[unfolded r]] have hp: "heap_inv popped" by simp
  from body Inr r hp show ?thesis
    by (auto simp: ucs_body_def Let_def ucs_expand_all_new_states push_new_states_heap_inv
             split: if_splits option.splits sum.splits)
qed

lemma ucs_reachable_heap_inv: "ucs_reachable self vars \<Longrightarrow> heap_inv (fst vars)"
proof (induction rule: ucs_reachable.induct)
  case start
  show ?case by (simp add: heap_inv_def)
next
  case (pass priority_queue visited visited_states nodes_visited vars)
  obtain pq' rest where v: "vars = (pq', rest)" by (cases vars)
  from ucs_body_heap_inv[OF _ pass.hyps(3)[unfolded v]] pass.IH show ?case by (simp add: v)
qed

text \<open>Claim C5. At every loop test of \<^verbatim>\<open>ucs\<close>, the entry that \<^verbatim>\<open>heappop entry_lt\<close> takes has the least
  cost of the queue, and no entry left in the queue with the same cost has strictly fewer
  reached flags set: among entries of equal cost, one with fewer players at their goals is
  dequeued before one with more.\<close>

theorem ucs_equal_cost_tie_break:
  assumes "ucs_reachable self (priority_queue, visited, visited_states, nodes_visited)"
    and "heappop entry_lt priority_queue = Inr ((cost, current_state, path), priority_queue')"
    and "(cost', state', path') \<in> set priority_queue'"
  shows "cost \<le> cost' \<and>
         (cost' = cost \<longrightarrow>
            count_list (reached_goal current_state) True \<le> count_list (reached_goal state') True)"
proof -
  from ucs_reachable_heap_inv[OF assms(1)] have "heap_inv priority_queue" by simp
  from heappop_heap_inv[OF this assms(2)] assms(3)
  have "entry_le (cost, current_state, path) (cost', state', path')" by blast
  then show ?thesis
    by (auto simp: entry_le_def entry_lt_def GameState_lt_def split: if_splits)
qed

lemma A_ucs_first_pass:
  "ucs_body scenario_A [(0, state scenario_A, [])] {} [] 0 =
     Some (Inr (Next ([(1, A_down, [state scenario_A]), (1, won_state, [state scenario_A])],
                      {get_state (state scenario_A)}, [state scenario_A], 1)))"
  by code_simp

lemma A_ucs_second_pop:
  "heappop entry_lt [(1, A_down, [state scenario_A]), (1, won_state, [state scenario_A])] =
     Inr ((1, A_down, [state scenario_A]), [(1, won_state, [state scenario_A])])"
  by code_simp

theorem ucs_equal_cost_tie_break_witness:
  "ucs_reachable scenario_A
     ([(1, A_down, [state scenario_A]), (1, won_state, [state scenario_A])],
      {get_state (state scenario_A)}, [state scenario_A], 1) \<and>
   heappop entry_lt [(1, A_down, [state scenario_A]), (1, won_state, [state scenario_A])] =
     Inr ((1, A_down, [state scenario_A]), [(1, won_state, [state scenario_A])]) \<and>
   (1, won_state, [state scenario_A]) \<in> set [(1 :: nat, won_state, [state scenario_A])] \<and>
   (1 :: nat) \<le> 1 \<and>
   count_list (reached_goal A_down) True < count_list (reached_goal won_state) True"
proof -
  have r: "ucs_reachable scenario_A
     ([(1, A_down, [state scenario_A]), (1, won_state, [state scenario_A])],
      {get_state (state scenario_A)}, [state scenario_A], 1)"
    by (rule ucs_reachable.pass[OF ucs_reachable.start _ A_ucs_first_pass]) simp
  have m: "(1, won_state, [state scenario_A]) \<in> set [(1 :: nat, won_state, [state scenario_A])]"
    by simp
  have c: "count_list (reached_goal A_down) True < count_list (reached_goal won_state) True"
    by (simp add: A_down_def won_state_def)
  from ucs_equal_cost_tie_break[OF r A_ucs_second_pop m] r A_ucs_second_pop c show ?thesis by simp
qed


section \<open>The stored state is left as it is\<close>

lemma kept_refl [simp]: "kept n store store"
  by (simp add: kept_def)

lemma kept_trans: "kept n a b \<Longrightarrow> kept n b c \<Longrightarrow> kept n a c"
  by (simp add: kept_def)

lemma kept_update: "n \<le> obj \<Longrightarrow> kept n store (store[obj := x])"
  by (simp add: kept_def)

lemma kept_deepcopy: "n \<le> length store \<Longrightarrow> deepcopy store obj = (store', copy) \<Longrightarrow>
    kept n store store' \<and> copy = length store \<and> length store' = Suc (length store)"
  by (auto simp: kept_def deepcopy_def)

lemma kept_length: "kept n a b \<Longrightarrow> n \<le> length a \<Longrightarrow> n \<le> length b"
  by (simp add: kept_def)

lemma slide_in_store_result:
  assumes "slide_in_store self store obj i r_row c_col row col = Some y"
  shows "\<forall>store' cur. y = Inr (store', cur) \<longrightarrow> store' = store \<or> (\<exists>x. store' = store[obj := x])"
proof (rule slide_in_store.raw_induct[where P = "\<lambda>self store obj i r_row c_col row col y.
          \<forall>store' cur. y = Inr (store', cur) \<longrightarrow> store' = store \<or> (\<exists>x. store' = store[obj := x])",
        OF _ assms], goal_cases)
  case (1 f self store obj i r_row c_col row col y)
  note IH = 1(1)[rule_format, OF _ refl]
  from 1(2) show ?case
    by (auto simp: Let_def split: sum.splits if_splits option.splits dest: IH)
qed

lemma slide_in_store_kept:
  assumes "slide_in_store self store obj i r_row c_col row col = Some (Inr (store', cur))"
    and "n \<le> obj"
  shows "kept n store store'"
  using slide_in_store_result[OF assms(1)] assms(2) by (auto simp: kept_update)

lemma simulate_players_in_store_kept:
  "simulate_players_in_store self r_row c_col rest store obj acc = Some (Inr (store', out)) \<Longrightarrow>
     n \<le> obj \<Longrightarrow> n \<le> length store \<Longrightarrow> kept n store store'"
proof (induction rest arbitrary: store acc)
  case Nil
  then show ?case by simp
next
  case (Cons ip rest)
  obtain i p where ip: "ip = (i, p)" by (cases ip)
  note run = Cons.prems(1)[unfolded ip simulate_players_in_store.simps]
  show ?case
  proof (cases "py_index (reached_goal (store ! obj)) (int i)")
    case None
    with run show ?thesis by simp
  next
    case (Some reached)
    show ?thesis
    proof (cases reached)
      case True
      with run Some Cons.IH[OF _ Cons.prems(2,3)] show ?thesis by simp
    next
      case False
      show ?thesis
      proof (cases "slide_in_store self store obj i r_row c_col (fst (position p)) (snd (position p))")
        case None
        with run Some False show ?thesis by simp
      next
        case sl: (Some res)
        show ?thesis
        proof (cases res)
          case (Inl e)
          with run Some False sl show ?thesis by simp
        next
          case (Inr pr)
          obtain store1 cur where pr: "pr = (store1, cur)" by (cases pr)
          from sl Inr pr have sl': "slide_in_store self store obj i r_row c_col
              (fst (position p)) (snd (position p)) = Some (Inr (store1, cur))" by simp
          note k1 = slide_in_store_kept[OF sl' Cons.prems(2)]
          note l1 = kept_length[OF k1 Cons.prems(3)]
          show ?thesis
          proof (cases "cur = position p")
            case True
            with run Some False sl' have "simulate_players_in_store self r_row c_col rest store1 obj acc =
                Some (Inr (store', out))" by simp
            from kept_trans[OF k1 Cons.IH[OF this Cons.prems(2) l1]] show ?thesis .
          next
            case ne: False
            let ?s2 = "store1[obj := (store1 ! obj)\<lparr>players := (players (store1 ! obj))[i := p\<lparr>position := cur\<rparr>]\<rparr>]"
            let ?s3 = "?s2 @ [?s2 ! obj]"
            from run Some False sl' ne
            have "simulate_players_in_store self r_row c_col rest ?s3 obj (acc @ [length ?s2]) =
                Some (Inr (store', out))"
              by (simp add: Let_def deepcopy_def)
            moreover have "n \<le> length ?s3" using l1 by simp
            ultimately have k3: "kept n ?s3 store'" by (rule Cons.IH[OF _ Cons.prems(2)])
            have "kept n store1 ?s2" by (rule kept_update[OF Cons.prems(2)])
            moreover have "kept n ?s2 ?s3" using l1 by (simp add: kept_def)
            ultimately show ?thesis using k1 k3 by (blast intro: kept_trans)
          qed
        qed
      qed
    qed
  qed
qed


lemma simulate_move_in_store_kept:
  assumes "simulate_move_in_store self store obj r_row c_col = Some (Inr (store', out))"
    and "n \<le> length store"
  shows "kept n store store'"
proof -
  let ?s1 = "store @ [store ! obj]"
  from assms(1) have "simulate_players_in_store self r_row c_col
      (enumerate 0 (players (?s1 ! length store))) ?s1 (length store) [] = Some (Inr (store', out))"
    by (simp add: simulate_move_in_store_def deepcopy_def)
  from simulate_players_in_store_kept[OF this assms(2)] assms(2) have "kept n ?s1 store'" by simp
  moreover from assms(2) have "kept n store ?s1" by (simp add: kept_def)
  ultimately show ?thesis by (blast intro: kept_trans)
qed

lemma expand_in_store_kept:
  "expand_in_store self obj path ms store frontier = Some (Inr (store', frontier')) \<Longrightarrow>
     n \<le> length store \<Longrightarrow> kept n store store'"
proof (induction ms arbitrary: store frontier)
  case Nil
  then show ?case by simp
next
  case (Cons m ms)
  obtain mr mc where m: "m = (mr, mc)" by (cases m)
  from Cons.prems(1) obtain store1 ns
    where sm: "simulate_move_in_store self store obj mr mc = Some (Inr (store1, ns))"
      and rest: "expand_in_store self obj path ms store1 (append_refs frontier ns (path @ [obj])) =
                   Some (Inr (store', frontier'))"
    by (auto simp: m split: option.splits sum.splits)
  note k1 = simulate_move_in_store_kept[OF sm Cons.prems(2)]
  from kept_trans[OF k1 Cons.IH[OF rest kept_length[OF k1 Cons.prems(2)]]] show ?case .
qed

lemma ucs_expand_in_store_kept:
  "ucs_expand_in_store self cost obj path visited ms store pq = Some (Inr (store', pq')) \<Longrightarrow>
     n \<le> length store \<Longrightarrow> kept n store store'"
proof (induction ms arbitrary: store pq)
  case Nil
  then show ?case by simp
next
  case (Cons m ms)
  obtain mr mc where m: "m = (mr, mc)" by (cases m)
  from Cons.prems(1) obtain store1 ns
    where sm: "simulate_move_in_store self store obj mr mc = Some (Inr (store1, ns))"
      and rest: "ucs_expand_in_store self cost obj path visited ms store1
                   (push_refs store1 pq visited cost ns (path @ [obj])) = Some (Inr (store', pq'))"
    by (auto simp: m split: option.splits sum.splits)
  note k1 = simulate_move_in_store_kept[OF sm Cons.prems(2)]
  from kept_trans[OF k1 Cons.IH[OF rest kept_length[OF k1 Cons.prems(2)]]] show ?case .
qed

lemma visit_in_store_kept:
  assumes "visit_in_store self store obj path frontier visited vs nv = Some (Inr (store', it))"
    and "n \<le> length store"
  shows "kept n store store'"
proof -
  let ?s1 = "store @ [store ! obj]"
  from assms(2) have k1: "kept n store ?s1" and l1: "n \<le> length ?s1" by (simp_all add: kept_def)
  from assms(1) have "store' = ?s1 \<or>
      (\<exists>frontier'. expand_in_store self obj path moves ?s1 frontier = Some (Inr (store', frontier')))"
    by (auto simp: visit_in_store_def deepcopy_def Let_def split: if_splits option.splits sum.splits)
  then show ?thesis
  proof
    assume "store' = ?s1"
    with k1 show ?thesis by simp
  next
    assume "\<exists>frontier'. expand_in_store self obj path moves ?s1 frontier = Some (Inr (store', frontier'))"
    then obtain frontier' where "expand_in_store self obj path moves ?s1 frontier = Some (Inr (store', frontier'))"
      by blast
    from kept_trans[OF k1 expand_in_store_kept[OF this l1]] show ?thesis .
  qed
qed

lemma dfs_loop_in_store_kept:
  assumes "dfs_loop_in_store self store stack visited vs nv = Some y"
  shows "\<forall>store' r. y = Inr (store', r) \<longrightarrow> n \<le> length store \<longrightarrow> kept n store store'"
proof (rule dfs_loop_in_store.raw_induct[where P = "\<lambda>self store stack visited vs nv y.
          \<forall>store' r. y = Inr (store', r) \<longrightarrow> n \<le> length store \<longrightarrow> kept n store store'",
        OF _ assms], goal_cases)
  case (1 f self store stack visited vs nv y)
  note IH = 1(1)[rule_format, OF _ refl]
  show ?case
  proof (intro allI impI)
    fix store' r assume y: "y = Inr (store', r)" and n: "n \<le> length store"
    show "kept n store store'"
    proof (cases "stack = []")
      case True
      with 1(2) y show ?thesis by simp
    next
      case False
      obtain obj path where l: "last stack = (obj, path)" by (cases "last stack")
      from 1(2) y False l obtain store1 it
        where v: "visit_in_store self store obj path (butlast stack) visited vs nv = Some (Inr (store1, it))"
          and c: "(case it of Return r' \<Rightarrow> Some (Inr (store1, r'))
                   | Next (stack', visited', vs', nv') \<Rightarrow> f self store1 stack' visited' vs' nv') =
                  Some (Inr (store', r))"
        by (auto split: option.splits sum.splits)
      note k1 = visit_in_store_kept[OF v n]
      show ?thesis
      proof (cases it)
        case (Return r')
        with c k1 show ?thesis by simp
      next
        case (Next vars)
        obtain stack' visited' vs' nv' where "vars = (stack', visited', vs', nv')" by (cases vars)
        with c Next have "f self store1 stack' visited' vs' nv' = Some (Inr (store', r))" by simp
        from kept_trans[OF k1 IH[OF this kept_length[OF k1 n]]] show ?thesis .
      qed
    qed
  qed
qed


lemma bfs_loop_in_store_kept:
  assumes "bfs_loop_in_store self store queue visited vs nv = Some y"
  shows "\<forall>store' r. y = Inr (store', r) \<longrightarrow> n \<le> length store \<longrightarrow> kept n store store'"
proof (rule bfs_loop_in_store.raw_induct[where P = "\<lambda>self store queue visited vs nv y.
          \<forall>store' r. y = Inr (store', r) \<longrightarrow> n \<le> length store \<longrightarrow> kept n store store'",
        OF _ assms], goal_cases)
  case (1 f self store queue visited vs nv y)
  note IH = 1(1)[rule_format, OF _ refl]
  show ?case
  proof (intro allI impI)
    fix store' r assume y: "y = Inr (store', r)" and n: "n \<le> length store"
    show "kept n store store'"
    proof (cases queue)
      case Nil
      with 1(2) y show ?thesis by simp
    next
      case (Cons e queue')
      obtain obj path where e: "e = (obj, path)" by (cases e)
      from 1(2) y Cons e obtain store1 it
        where v: "visit_in_store self store obj path queue' visited vs nv = Some (Inr (store1, it))"
          and c: "(case it of Return r' \<Rightarrow> Some (Inr (store1, r'))
                   | Next (queue'', visited', vs', nv') \<Rightarrow> f self store1 queue'' visited' vs' nv') =
                  Some (Inr (store', r))"
        by (auto split: option.splits sum.splits)
      note k1 = visit_in_store_kept[OF v n]
      show ?thesis
      proof (cases it)
        case (Return r')
        with c k1 show ?thesis by simp
      next
        case (Next vars)
        obtain queue'' visited' vs' nv' where "vars = (queue'', visited', vs', nv')" by (cases vars)
        with c Next have "f self store1 queue'' visited' vs' nv' = Some (Inr (store', r))" by simp
        from kept_trans[OF k1 IH[OF this kept_length[OF k1 n]]] show ?thesis .
      qed
    qed
  qed
qed

lemma ucs_loop_in_store_kept:
  assumes "ucs_loop_in_store self store pq visited vs nv = Some y"
  shows "\<forall>store' r. y = Inr (store', r) \<longrightarrow> n \<le> length store \<longrightarrow> kept n store store'"
proof (rule ucs_loop_in_store.raw_induct[where P = "\<lambda>self store pq visited vs nv y.
          \<forall>store' r. y = Inr (store', r) \<longrightarrow> n \<le> length store \<longrightarrow> kept n store store'",
        OF _ assms], goal_cases)
  case (1 f self store pq visited vs nv y)
  note IH = 1(1)[rule_format, OF _ refl]
  show ?case
  proof (intro allI impI)
    fix store' r assume y: "y = Inr (store', r)" and n: "n \<le> length store"
    show "kept n store store'"
    proof (cases "pq = []")
      case True
      with 1(2) y show ?thesis by simp
    next
      case False
      from 1(2) y False obtain cost obj path popped
        where pop: "heappop (ref_entry_lt store) pq = Inr ((cost, obj, path), popped)"
        by (auto split: sum.splits)
      let ?s1 = "store @ [store ! obj]"
      from n have k1: "kept n store ?s1" and l1: "n \<le> length ?s1" by (simp_all add: kept_def)
      note body = 1(2)[unfolded y, simplified False pop, simplified, unfolded deepcopy_def Let_def, simplified]
      show ?thesis
      proof (cases "py_all (reached_goal (?s1 ! obj))")
        case True
        with body k1 show ?thesis by simp
      next
        case goal: False
        show ?thesis
        proof (cases "get_state (?s1 ! obj) \<in> visited")
          case True
          with body goal have "f self ?s1 popped visited (vs @ [length store]) (Suc nv) = Some (Inr (store', r))"
            by simp
          from kept_trans[OF k1 IH[OF this l1]] show ?thesis .
        next
          case False
          with body goal obtain store2 pq2
            where ex: "ucs_expand_in_store self cost obj path (insert (get_state (?s1 ! obj)) visited)
                         moves ?s1 popped = Some (Inr (store2, pq2))"
              and rec: "f self store2 pq2 (insert (get_state (?s1 ! obj)) visited)
                          (vs @ [length store]) (Suc nv) = Some (Inr (store', r))"
            by (auto split: option.splits sum.splits)
          note k2 = ucs_expand_in_store_kept[OF ex l1]
          from kept_trans[OF k1 kept_trans[OF k2 IH[OF rec kept_length[OF k2 l1]]]] show ?thesis .
        qed
      qed
    qed
  qed
qed

text \<open>Claim C9. When \<^verbatim>\<open>dfs\<close>, \<^verbatim>\<open>bfs\<close> or \<^verbatim>\<open>ucs\<close> returns, every object that existed before the
  call has the value it had, so the object that \<^verbatim>\<open>self.state\<close> refers to has the same
  player positions and the same reached flags (and \<^verbatim>\<open>self.state\<close> is not assigned to): each
  search starts from a copy of it, and \<^verbatim>\<open>simulate_move\<close> writes only to the copy it made.\<close>

theorem searches_keep_stored_state:
  assumes "state_attr self < length store"
  shows "(dfs_in_store self store = Some (Inr (store_d, r_d)) \<longrightarrow>
            length store \<le> length store_d \<and> take (length store) store_d = store \<and>
            store_d ! state_attr self = store ! state_attr self) \<and>
         (bfs_in_store self store = Some (Inr (store_b, r_b)) \<longrightarrow>
            length store \<le> length store_b \<and> take (length store) store_b = store \<and>
            store_b ! state_attr self = store ! state_attr self) \<and>
         (ucs_in_store self store = Some (Inr (store_u, r_u)) \<longrightarrow>
            length store \<le> length store_u \<and> take (length store) store_u = store \<and>
            store_u ! state_attr self = store ! state_attr self)"
proof -
  let ?s1 = "store @ [store ! state_attr self]"
  have k1: "kept (length store) store ?s1" by (simp add: kept_def)
  have fin: "length store \<le> length store' \<and> take (length store) store' = store \<and>
            store' ! state_attr self = store ! state_attr self" if "kept (length store) ?s1 store'"
    for store'
  proof -
    from kept_trans[OF k1 that] have k: "length store \<le> length store'" "take (length store) store' = store"
      by (simp_all add: kept_def)
    from assms have "store' ! state_attr self = take (length store) store' ! state_attr self" by simp
    with k show ?thesis by simp
  qed
  show ?thesis
  proof (rule conjI[OF impI conjI[OF impI impI]])
    assume "dfs_in_store self store = Some (Inr (store_d, r_d))"
    then have "dfs_loop_in_store self ?s1 [(length store, [])] {} [] 0 = Some (Inr (store_d, r_d))"
      by (simp add: dfs_in_store_def deepcopy_def)
    from dfs_loop_in_store_kept[OF this, rule_format, OF refl, of "length store"]
    have "kept (length store) ?s1 store_d" by simp
    then show "length store \<le> length store_d \<and> take (length store) store_d = store \<and>
            store_d ! state_attr self = store ! state_attr self"
      by (rule fin)
  next
    assume "bfs_in_store self store = Some (Inr (store_b, r_b))"
    then have "bfs_loop_in_store self ?s1 [(length store, [])] {} [] 0 = Some (Inr (store_b, r_b))"
      by (simp add: bfs_in_store_def deepcopy_def)
    from bfs_loop_in_store_kept[OF this, rule_format, OF refl, of "length store"]
    have "kept (length store) ?s1 store_b" by simp
    then show "length store \<le> length store_b \<and> take (length store) store_b = store \<and>
            store_b ! state_attr self = store ! state_attr self"
      by (rule fin)
  next
    assume "ucs_in_store self store = Some (Inr (store_u, r_u))"
    then have "ucs_loop_in_store self ?s1 [(0, length store, [])] {} [] 0 = Some (Inr (store_u, r_u))"
      by (simp add: ucs_in_store_def deepcopy_def)
    from ucs_loop_in_store_kept[OF this, rule_format, OF refl, of "length store"]
    have "kept (length store) ?s1 store_u" by simp
    then show "length store \<le> length store_u \<and> take (length store) store_u = store \<and>
            store_u ! state_attr self = store ! state_attr self"
      by (rule fin)
  qed
qed

lemma A_dfs_in_store: "dfs_in_store A_object A_store = Some (Inr (A_dfs_store, Some [1, 8], 2, [2, 9]))"
  by code_simp

lemma A_bfs_in_store: "bfs_in_store A_object A_store = Some (Inr (A_bfs_store, Some [1, 8], 3, [2, 9, 16]))"
  by code_simp

lemma A_ucs_in_store: "ucs_in_store A_object A_store = Some (Inr (A_bfs_store, Some [1, 8], 3, [2, 9, 16]))"
  by code_simp

theorem searches_keep_stored_state_witness:
  "state_attr A_object < length A_store \<and>
   dfs_in_store A_object A_store = Some (Inr (A_dfs_store, Some [1, 8], 2, [2, 9])) \<and>
   bfs_in_store A_object A_store = Some (Inr (A_bfs_store, Some [1, 8], 3, [2, 9, 16])) \<and>
   ucs_in_store A_object A_store = Some (Inr (A_bfs_store, Some [1, 8], 3, [2, 9, 16])) \<and>
   take (length A_store) A_dfs_store = A_store \<and>
   A_dfs_store ! state_attr A_object = A_store ! state_attr A_object \<and>
   take (length A_store) A_bfs_store = A_store \<and>
   A_bfs_store ! state_attr A_object = A_store ! state_attr A_object"
proof -
  have h: "state_attr A_object < length A_store" by (simp add: A_object_def A_store_def)
  from searches_keep_stored_state[OF h, of A_dfs_store "(Some [1, 8], 2, [2, 9])"
      A_bfs_store "(Some [1, 8], 3, [2, 9, 16])" A_bfs_store "(Some [1, 8], 3, [2, 9, 16])"]
    h A_dfs_in_store A_bfs_in_store A_ucs_in_store
  show ?thesis by simp
qed

end
